theory Spec2Isabelle
  imports Complex_Main "HOL-Library.Monad_Syntax"
begin

section \<open>JavaScript numbers and array reads\<close>

text \<open>
  The data layer \<^verbatim>\<open>src/js/dashboard/data.js\<close> computes on JavaScript Numbers, the IEEE 754
  doubles: a finite value, given by the real number it denotes, or one of \<open>Infinity\<close>,
  \<open>-Infinity\<close> and \<open>NaN\<close>. \<open>undefined\<close> (a read past the end of an array, a missing
  property) is \<open>None\<close>. The sign of zero is not modelled.
\<close>

datatype jsnum = Num real | PInf | NInf | NaN

datatype error = TypeError | HttpStatus nat | EmptyPaths | NetworkFailure | InvalidJson

text \<open>
  The result of \<open>+\<close>, \<open>-\<close>, \<open>*\<close> and \<open>/\<close> on finite operands is the exact result rounded to
  the nearest double, a tie going to the double with the even significand. \<open>binade x\<close> is
  the exponent \<open>e\<close> with \<open>2^e \<le> x < 2^(e + 1)\<close> of a positive \<open>x\<close>. The doubles of that
  binade are the multiples of \<open>2^(e - 52)\<close>, and below \<open>2^(-1022)\<close> the multiples of
  \<open>2^(-1074)\<close> (gradual underflow: a result of magnitude at most \<open>2^(-1075)\<close> rounds to
  \<open>0\<close>). A rounded result of magnitude \<open>2^1024\<close> overflows to the infinity of its sign.
\<close>

function binade :: "real \<Rightarrow> int" where
  "binade x = (if 2 \<le> x then binade (x / 2) + 1
               else if 0 < x \<and> x < 1 then binade (2 * x) - 1
               else 0)"
  by pat_completeness auto
termination
proof (relation "measure (\<lambda>x. if 2 \<le> x then nat \<lfloor>log 2 x\<rfloor>
                                else if 0 < x \<and> x < 1 then nat \<lceil>- log 2 x\<rceil> else 0)")
  show "wf (measure (\<lambda>x. if 2 \<le> x then nat \<lfloor>log 2 x\<rfloor>
                                else if 0 < x \<and> x < 1 then nat \<lceil>- log 2 x\<rceil> else 0))"
    by simp
next
  fix x :: real
  assume x: "2 \<le> x"
  have l: "log 2 (x / 2) = log 2 x - 1" using x by (simp add: log_divide)
  have "1 \<le> log 2 x" using x by (simp add: le_log_iff)
  then have f: "1 \<le> \<lfloor>log 2 x\<rfloor>" by simp
  have "\<not> (0 < x / 2 \<and> x / 2 < 1)" using x by simp
  then show "(x / 2, x) \<in> measure (\<lambda>x. if 2 \<le> x then nat \<lfloor>log 2 x\<rfloor>
                                else if 0 < x \<and> x < 1 then nat \<lceil>- log 2 x\<rceil> else 0)"
    using x f by (auto simp: l)
next
  fix x :: real
  assume x: "\<not> 2 \<le> x" "0 < x \<and> x < 1"
  have l: "log 2 (2 * x) = 1 + log 2 x" using x by (simp add: log_mult)
  have "log 2 x < 0" using x by simp
  then have c: "1 \<le> \<lceil>- log 2 x\<rceil>" by (simp add: le_ceiling_iff)
  have c': "\<lceil>- 1 - log 2 x\<rceil> = \<lceil>- log 2 x\<rceil> - 1"
  proof -
    have "- 1 - log 2 x = - log 2 x - of_int 1" by simp
    then show ?thesis by (simp only: ceiling_diff_of_int)
  qed
  have "\<not> 2 \<le> 2 * x" using x by simp
  then show "(2 * x, x) \<in> measure (\<lambda>x. if 2 \<le> x then nat \<lfloor>log 2 x\<rfloor>
                                else if 0 < x \<and> x < 1 then nat \<lceil>- log 2 x\<rceil> else 0)"
    using x c by (auto simp: l c')
qed

declare binade.simps [simp del]

definition pow2 :: "int \<Rightarrow> real" where
  "pow2 e = 2 powi e"

definition round_half_even :: "real \<Rightarrow> int" where
  "round_half_even x =
     (let f = \<lfloor>x\<rfloor>; d = x - of_int f
      in if d < 1 / 2 then f else if 1 / 2 < d then f + 1 else if even f then f else f + 1)"

definition fl :: "real \<Rightarrow> jsnum" where
  "fl x =
     (if x = 0 then Num 0
      else
        let e = max (binade \<bar>x\<bar>) (- 1022);
            q = pow2 (e - 52);
            y = of_int (round_half_even (x / q)) * q
        in if pow2 1024 \<le> \<bar>y\<bar> then (if 0 < x then PInf else NInf) else Num y)"

fun ToNumber :: "jsnum option \<Rightarrow> jsnum" where
  "ToNumber None = NaN"
| "ToNumber (Some x) = x"

fun js_neg :: "jsnum \<Rightarrow> jsnum" where
  "js_neg (Num a) = Num (- a)"
| "js_neg PInf = NInf"
| "js_neg NInf = PInf"
| "js_neg NaN = NaN"

fun js_add :: "jsnum \<Rightarrow> jsnum \<Rightarrow> jsnum" where
  "js_add NaN y = NaN"
| "js_add x NaN = NaN"
| "js_add (Num a) (Num b) = fl (a + b)"
| "js_add PInf NInf = NaN"
| "js_add NInf PInf = NaN"
| "js_add PInf y = PInf"
| "js_add NInf y = NInf"
| "js_add (Num a) y = y"

definition js_sub :: "jsnum \<Rightarrow> jsnum \<Rightarrow> jsnum" where
  "js_sub x y = js_add x (js_neg y)"

fun js_mul :: "jsnum \<Rightarrow> jsnum \<Rightarrow> jsnum" where
  "js_mul NaN y = NaN"
| "js_mul x NaN = NaN"
| "js_mul (Num a) (Num b) = fl (a * b)"
| "js_mul (Num a) y = (if a = 0 then NaN else if 0 < a then y else js_neg y)"
| "js_mul x (Num b) = (if b = 0 then NaN else if 0 < b then x else js_neg x)"
| "js_mul PInf y = y"
| "js_mul NInf y = js_neg y"

fun js_div :: "jsnum \<Rightarrow> jsnum \<Rightarrow> jsnum" where
  "js_div NaN y = NaN"
| "js_div x NaN = NaN"
| "js_div (Num a) (Num b) =
     (if b = 0 then (if a = 0 then NaN else if 0 < a then PInf else NInf) else fl (a / b))"
| "js_div (Num a) y = Num 0"
| "js_div x (Num b) = (if 0 \<le> b then x else js_neg x)"
| "js_div x y = NaN"

fun js_lt :: "jsnum \<Rightarrow> jsnum \<Rightarrow> bool" where
  "js_lt NaN y = False"
| "js_lt x NaN = False"
| "js_lt (Num a) (Num b) = (a < b)"
| "js_lt x NInf = False"
| "js_lt PInf y = False"
| "js_lt x y = True"

definition js_gt :: "jsnum \<Rightarrow> jsnum \<Rightarrow> bool" where
  "js_gt x y = js_lt y x"

fun js_le :: "jsnum \<Rightarrow> jsnum \<Rightarrow> bool" where
  "js_le NaN y = False"
| "js_le x NaN = False"
| "js_le x y = (\<not> js_lt y x)"

fun Math_floor :: "jsnum \<Rightarrow> jsnum" where
  "Math_floor (Num a) = Num (of_int \<lfloor>a\<rfloor>)"
| "Math_floor x = x"

fun Math_min :: "jsnum \<Rightarrow> jsnum \<Rightarrow> jsnum" where
  "Math_min NaN y = NaN"
| "Math_min x NaN = NaN"
| "Math_min x y = (if js_lt y x then y else x)"

text \<open>
  \<^verbatim>\<open>Math.exp\<close>, and below \<^verbatim>\<open>Math.log\<close>, \<^verbatim>\<open>Math.sqrt\<close> and \<^verbatim>\<open>Math.cos\<close>, return the double
  nearest to the exact value. (An engine may be off by a unit in the last place; the
  statements below use of these functions only the sign and coarse bounds of a result, and
  the value \<open>0\<close> of \<^verbatim>\<open>Math.exp\<close> at \<open>-Infinity\<close>.)
\<close>

fun Math_exp :: "jsnum \<Rightarrow> jsnum" where
  "Math_exp (Num a) = fl (exp a)"
| "Math_exp PInf = PInf"
| "Math_exp NInf = Num 0"
| "Math_exp NaN = NaN"

text \<open>\<^verbatim>\<open>Math.round\<close> on a finite number: ties go up.\<close>

definition Math_round :: "real \<Rightarrow> int" where
  "Math_round x = \<lfloor>x + 1 / 2\<rfloor>"

text \<open>
  \<^verbatim>\<open>parseFloat(x.toFixed(f))\<close>: \<^verbatim>\<open>toFixed\<close> takes the integer \<open>n\<close> with \<open>n / 10^f\<close> closest
  to \<open>|x|\<close>, the larger one at a tie, and keeps the sign; from \<open>10^21\<close> on it prints the
  number itself. \<^verbatim>\<open>parseFloat\<close> reads the printed decimal back; the result is given as that
  decimal, without the rounding to the double nearest to it.
\<close>

definition toFixed_real :: "nat \<Rightarrow> real \<Rightarrow> real" where
  "toFixed_real f x =
     (if 10 ^ 21 \<le> \<bar>x\<bar> then x
      else if x < 0 then - (of_int \<lfloor>- x * 10 ^ f + 1 / 2\<rfloor> / 10 ^ f)
      else of_int \<lfloor>x * 10 ^ f + 1 / 2\<rfloor> / 10 ^ f)"

fun toFixed :: "nat \<Rightarrow> jsnum \<Rightarrow> jsnum" where
  "toFixed f (Num a) = Num (toFixed_real f a)"
| "toFixed f x = x"

text \<open>\<^verbatim>\<open>xs[i]\<close>: \<open>undefined\<close> past the end.\<close>

definition js_nth :: "'a list \<Rightarrow> nat \<Rightarrow> 'a option" where
  "js_nth xs i = (if i < length xs then Some (xs ! i) else None)"

definition js_at :: "'a option list \<Rightarrow> nat \<Rightarrow> 'a option" where
  "js_at xs i = (if i < length xs then xs ! i else None)"

text \<open>
  \<^verbatim>\<open>[...xs].sort((a, b) => a - b)\<close>: \<open>undefined\<close> elements go to the end without a call of
  the comparator; the others are sorted stably, \<open>a\<close> after \<open>b\<close> where \<open>a - b > 0\<close> (a
  \<open>NaN\<close> difference counts as \<open>0\<close>). The sort uses of the difference its sign only, and
  the rounded difference of two doubles is positive exactly when the first is the greater
  one (\<open>comparator_sign\<close> and \<open>comparator_sign_special\<close> below), so the model compares the
  two numbers. The order is the one of an insertion sort, which is the order ECMAScript
  prescribes whenever the comparator is consistent, that is, when no element is \<open>NaN\<close>; with
  a \<open>NaN\<close> among other numbers the order depends on the engine.
\<close>

fun js_insort :: "jsnum \<Rightarrow> jsnum list \<Rightarrow> jsnum list" where
  "js_insort a [] = [a]"
| "js_insort a (b # bs) = (if js_gt a b then b # js_insort a bs else a # b # bs)"

definition js_sort :: "jsnum option list \<Rightarrow> jsnum option list" where
  "js_sort vs =
     map Some (foldr js_insort (map the (filter (\<lambda>v. v \<noteq> None) vs)) [])
     @ filter (\<lambda>v. v = None) vs"

text \<open>Decimal rendering of a non-negative integer in a template string.\<close>

fun string_of_nat :: "nat \<Rightarrow> string" where
  "string_of_nat n =
     (if n < 10 then [''0123456789'' ! n]
      else string_of_nat (n div 10) @ [''0123456789'' ! (n mod 10)])"

declare string_of_nat.simps [simp del]

section \<open>The statistics engine: \<^verbatim>\<open>computeStatsFromPaths\<close>\<close>

record risk_statistics =
  value_at_risk_95 :: jsnum
  conditional_value_at_risk_95 :: jsnum
  probability_of_profit :: real
  average_drawdown_days :: int

record histogram_data =
  bin_edges :: "jsnum list"
  fpga_counts :: "nat list"
  cpu_counts :: "int list"

text \<open>
  The fields \<open>bin_edges\<close> and \<open>counts\<close> of \<open>drawdown_distribution\<close> carry the prefix \<open>dd_\<close>
  here, to tell them from the histogram's.
\<close>

record drawdown_distribution =
  dd_bin_edges :: "string list"
  dd_counts :: "nat list"

record stats =
  risk_statistics :: risk_statistics
  histogram_data :: histogram_data
  drawdown_distribution :: drawdown_distribution

text \<open>The last element \<^verbatim>\<open>p[p.length - 1]\<close>; index \<open>-1\<close> of an empty path is \<open>undefined\<close>.\<close>

definition final_price :: "jsnum list \<Rightarrow> jsnum option" where
  "final_price p = (if length p = 0 then None else js_nth p (length p - 1))"

text \<open>
  One step \<open>d\<close> of the inner loop over a path, on the pair \<open>(maxDD, currentDD)\<close>, and the
  loop over \<open>d = 1, ..., days - 1\<close>.
\<close>

definition dd_step :: "jsnum list \<Rightarrow> jsnum option \<Rightarrow> nat \<Rightarrow> nat \<times> nat \<Rightarrow> nat \<times> nat" where
  "dd_step path startPrice d = (\<lambda>(maxDD, currentDD).
     if js_lt (ToNumber (js_nth path d)) (ToNumber startPrice)
     then (let c = currentDD + 1 in (if c > maxDD then c else maxDD, c))
     else (maxDD, 0))"

definition maxDrawdown :: "nat \<Rightarrow> jsnum option \<Rightarrow> jsnum list \<Rightarrow> nat" where
  "maxDrawdown days startPrice path = fst (fold (dd_step path startPrice) [1..<days] (0, 0))"

definition maxDrawdowns :: "jsnum list list \<Rightarrow> jsnum option \<Rightarrow> nat list" where
  "maxDrawdowns paths startPrice = map (maxDrawdown (length (hd paths)) startPrice) paths"

definition binCount :: nat where
  "binCount = 24"

text \<open>
  \<^verbatim>\<open>fpgaCounts[idx]++\<close>: an index that is not an integer in the array's range names a
  property of the array object and changes no element. (\<open>idx\<close> is at most \<open>binCount - 1\<close>
  by \<^verbatim>\<open>Math.min\<close>, so the array never grows.)
\<close>

definition increment_at :: "nat list \<Rightarrow> jsnum \<Rightarrow> nat list" where
  "increment_at cs idx =
     (case idx of
        Num k \<Rightarrow>
          if k = of_int \<lfloor>k\<rfloor> \<and> 0 \<le> k \<and> nat \<lfloor>k\<rfloor> < length cs
          then cs[nat \<lfloor>k\<rfloor> := cs ! nat \<lfloor>k\<rfloor> + 1] else cs
      | _ \<Rightarrow> cs)"

definition count_price :: "jsnum \<Rightarrow> jsnum \<Rightarrow> jsnum \<Rightarrow> jsnum option \<Rightarrow> nat list \<Rightarrow> nat list" where
  "count_price trimLow trimHigh binWidth p cs =
     (if js_lt (ToNumber p) trimLow \<or> js_gt (ToNumber p) trimHigh then cs
      else increment_at cs
             (Math_min (Math_floor (js_div (js_sub (ToNumber p) trimLow) binWidth))
                (Num (real (binCount - 1)))))"

text \<open>
  The comparison series: one draw of \<^verbatim>\<open>Math.random\<close> per bin, in bin order. The random
  source is a sequence \<open>rnd\<close> read at a position that each draw advances.
\<close>

fun jitter :: "(nat \<Rightarrow> real) \<Rightarrow> nat \<Rightarrow> nat list \<Rightarrow> int list \<times> nat" where
  "jitter rnd pos [] = ([], pos)"
| "jitter rnd pos (c # cs) =
     (let v = max 0 (int c + Math_round ((rnd pos - 0.5) * real c * 0.04));
          (vs, pos') = jitter rnd (pos + 1) cs
      in (v # vs, pos'))"

definition ddStep :: "nat \<Rightarrow> nat" where
  "ddStep days = nat (max 1 ((int days - 1) div 5))"

text \<open>The five buckets \<open>[lo, hi)\<close>; \<open>None\<close> is the upper bound \<open>Infinity\<close>.\<close>

definition ddBinEdges :: "nat \<Rightarrow> (nat \<times> nat option) list" where
  "ddBinEdges days =
     map (\<lambda>i. (i * ddStep days, if i = 4 then None else Some ((i + 1) * ddStep days))) [0..<5]"

definition ddLabels :: "nat \<Rightarrow> string list" where
  "ddLabels days =
     map (\<lambda>i. if i = 4 then string_of_nat (i * ddStep days) @ ''d+''
               else string_of_nat (i * ddStep days) @ ''-''
                    @ string_of_nat ((i + 1) * ddStep days) @ ''d'') [0..<5]"

definition in_bucket :: "nat \<times> nat option \<Rightarrow> nat \<Rightarrow> bool" where
  "in_bucket b dd = (case b of (lo, hi) \<Rightarrow> dd \<ge> lo \<and> (case hi of None \<Rightarrow> True | Some h \<Rightarrow> dd < h))"

definition ddCounts :: "nat \<Rightarrow> nat list \<Rightarrow> nat list" where
  "ddCounts days dds = map (\<lambda>b. length (filter (in_bucket b) dds)) (ddBinEdges days)"

definition finalPrices :: "jsnum list list \<Rightarrow> jsnum option list" where
  "finalPrices paths = map final_price paths"

definition sorted_prices :: "jsnum list list \<Rightarrow> jsnum option list" where
  "sorted_prices paths = js_sort (finalPrices paths)"

text \<open>
  \<^verbatim>\<open>Math.floor(q * sorted.length)\<close>. This product, the two quotients \<open>probProfit\<close> and
  \<open>avgDrawdown\<close>, the products of the comparison series and the timings are taken exactly,
  without the rounding to a double.
\<close>

definition percentile_index :: "real \<Rightarrow> nat \<Rightarrow> nat" where
  "percentile_index q n = nat \<lfloor>q * real n\<rfloor>"

definition trimLow :: "jsnum list list \<Rightarrow> jsnum" where
  "trimLow paths =
     ToNumber (js_at (sorted_prices paths) (percentile_index 0.02 (length (sorted_prices paths))))"

definition trimHigh :: "jsnum list list \<Rightarrow> jsnum" where
  "trimHigh paths =
     ToNumber (js_at (sorted_prices paths) (percentile_index 0.98 (length (sorted_prices paths))))"

definition binWidth :: "jsnum list list \<Rightarrow> jsnum" where
  "binWidth paths = js_div (js_sub (trimHigh paths) (trimLow paths)) (Num (real binCount))"

definition binEdges :: "jsnum list list \<Rightarrow> jsnum list" where
  "binEdges paths =
     map (\<lambda>i. toFixed 2 (js_add (trimLow paths) (js_mul (Num (real i)) (binWidth paths))))
       [0..<binCount + 1]"

definition fpgaCounts :: "jsnum list list \<Rightarrow> nat list" where
  "fpgaCounts paths =
     fold (count_price (trimLow paths) (trimHigh paths) (binWidth paths)) (finalPrices paths)
       (replicate binCount 0)"

definition var95 :: "jsnum list list \<Rightarrow> jsnum option" where
  "var95 paths = js_at (sorted_prices paths) (percentile_index 0.05 (length (sorted_prices paths)))"

definition cvarValues :: "jsnum list list \<Rightarrow> jsnum option list" where
  "cvarValues paths =
     filter (\<lambda>p. js_le (ToNumber p) (ToNumber (var95 paths))) (sorted_prices paths)"

definition cvar95 :: "jsnum list list \<Rightarrow> jsnum option" where
  "cvar95 paths =
     (if length (cvarValues paths) > 0
      then Some (js_div (fold (\<lambda>v s. js_add s (ToNumber v)) (cvarValues paths) (Num 0))
                   (Num (real (length (cvarValues paths)))))
      else var95 paths)"

definition probProfit :: "jsnum list list \<Rightarrow> jsnum option \<Rightarrow> real" where
  "probProfit paths startPrice =
     real (length (filter (\<lambda>p. js_gt (ToNumber p) (ToNumber startPrice)) (finalPrices paths)))
       / real (length paths) * 100"

definition avgDrawdown :: "jsnum list list \<Rightarrow> jsnum option \<Rightarrow> real" where
  "avgDrawdown paths startPrice =
     real (sum_list (maxDrawdowns paths startPrice)) / real (length paths)"

text \<open>
  The function. It throws a \<open>TypeError\<close> on an empty \<open>paths\<close> (\<^verbatim>\<open>paths[0].length\<close>) before
  any draw, and at the \<^verbatim>\<open>return\<close> when \<open>var95\<close> is \<open>undefined\<close> (\<^verbatim>\<open>var95.toFixed\<close>), after the
  draws for the comparison series. The result comes with the new position of the random
  source.
\<close>

definition computeStatsFromPaths ::
  "(nat \<Rightarrow> real) \<Rightarrow> nat \<Rightarrow> jsnum list list \<Rightarrow> jsnum option \<Rightarrow> (error + stats) \<times> nat" where
  "computeStatsFromPaths rnd pos paths startPrice =
     (if paths = [] then (Inl TypeError, pos)
      else
        let days = length (hd paths);
            (cpuCounts, pos') = jitter rnd pos (fpgaCounts paths)
        in case (var95 paths, cvar95 paths) of
             (Some v, Some c) \<Rightarrow>
               (Inr \<lparr> risk_statistics = \<lparr>
                        value_at_risk_95 = toFixed 2 v,
                        conditional_value_at_risk_95 = toFixed 2 c,
                        probability_of_profit = toFixed_real 1 (probProfit paths startPrice),
                        average_drawdown_days = Math_round (avgDrawdown paths startPrice) \<rparr>,
                      histogram_data = \<lparr>
                        bin_edges = binEdges paths,
                        fpga_counts = fpgaCounts paths,
                        cpu_counts = cpuCounts \<rparr>,
                      drawdown_distribution = \<lparr>
                        dd_bin_edges = ddLabels days,
                        dd_counts = ddCounts days (maxDrawdowns paths startPrice) \<rparr> \<rparr>, pos')
           | _ \<Rightarrow> (Inl TypeError, pos'))"

section \<open>The result shape and the two endpoints\<close>

record performance =
  fpga_time_ms :: real
  cpu_time_ms :: real
  speed_improvement_x :: real

text \<open>
  \<^verbatim>\<open>simulation_results\<close>: the three objects that \<^verbatim>\<open>...stats\<close> spreads into it, and its own
  fields. \<open>name\<close> and \<open>start_price\<close> are read from a configuration and can be
  \<open>undefined\<close>.
\<close>

record simulation_results = stats +
  ticker :: string
  name :: "string option"
  start_price :: "jsnum option"
  n_steps :: nat
  performance :: performance
  price_paths :: "jsnum list list"

definition API_BASE :: string where
  "API_BASE = ''http://localhost:8000''"

definition LIVE_SAMPLE_SIZE :: nat where
  "LIVE_SAMPLE_SIZE = 500"

definition VIZ_SAMPLE_COUNT :: nat where
  "VIZ_SAMPLE_COUNT = 35"

text \<open>
  What \<^verbatim>\<open>fetch\<close> gives: it rejects (no connection), or there is a response with a status
  and a body; \<^verbatim>\<open>res.json()\<close> rejects when the body is not JSON (\<open>None\<close>). \<^verbatim>\<open>res.ok\<close> holds for
  the statuses 200 to 299. Bodies are typed by the endpoints' contracts: the body of
  \<^verbatim>\<open>/simulation-results\<close> is an object \<open>d\<close> with the fields that \<^verbatim>\<open>fetchFull\<close> reads, the body
  of \<^verbatim>\<open>/montecarlo-sample\<close> an object whose \<open>paths\<close> is absent or an array of arrays of
  numbers.
\<close>

datatype 'b fetched = Unreachable | Responded (status: nat) (body: "'b option")

definition res_ok :: "nat \<Rightarrow> bool" where
  "res_ok st = (200 \<le> st \<and> st \<le> 299)"

record full_body =
  d_ticker :: string
  d_start_price :: real
  d_n_steps :: nat
  d_fpga_time_ms :: real
  d_cpu_time_ms :: real
  d_speed_improvement_x :: real
  d_value_at_risk_95 :: real
  d_conditional_value_at_risk_95 :: real
  d_probability_of_profit :: real
  d_average_drawdown_days :: int
  d_histogram_bin_edges :: "real list"
  d_histogram_fpga_counts :: "nat list"
  d_histogram_cpu_counts :: "int list"
  d_drawdown_bin_edges :: "string list"
  d_drawdown_counts :: "nat list"
  d_sample_paths :: "real list list"

record raw_body =
  paths :: "jsnum list list option"

text \<open>
  The world outside the module: the answer of the full endpoint to a ticker, the answer of
  the raw endpoint, the time \<^verbatim>\<open>performance.now() - t0\<close> that the raw fetch took, and the
  sequence that \<^verbatim>\<open>Math.random\<close> delivers.
\<close>

record environment =
  full_endpoint :: "string \<Rightarrow> full_body fetched"
  raw_endpoint :: "raw_body fetched"
  apiTime :: real
  random :: "nat \<Rightarrow> real"

definition fetchFull :: "environment \<Rightarrow> string \<Rightarrow> error + simulation_results" where
  "fetchFull env tk =
     (case full_endpoint env tk of
        Unreachable \<Rightarrow> Inl NetworkFailure
      | Responded st b \<Rightarrow>
          if \<not> res_ok st then Inl (HttpStatus st)
          else case b of
            None \<Rightarrow> Inl InvalidJson
          | Some d \<Rightarrow>
              Inr \<lparr> risk_statistics = \<lparr>
                      value_at_risk_95 = Num (d_value_at_risk_95 d),
                      conditional_value_at_risk_95 = Num (d_conditional_value_at_risk_95 d),
                      probability_of_profit = d_probability_of_profit d,
                      average_drawdown_days = d_average_drawdown_days d \<rparr>,
                    histogram_data = \<lparr>
                      bin_edges = map Num (d_histogram_bin_edges d),
                      fpga_counts = d_histogram_fpga_counts d,
                      cpu_counts = d_histogram_cpu_counts d \<rparr>,
                    drawdown_distribution = \<lparr>
                      dd_bin_edges = d_drawdown_bin_edges d,
                      dd_counts = d_drawdown_counts d \<rparr>,
                    ticker = d_ticker d,
                    name = Some (d_ticker d),
                    start_price = Some (Num (d_start_price d)),
                    n_steps = d_n_steps d,
                    performance = \<lparr>
                      fpga_time_ms = d_fpga_time_ms d,
                      cpu_time_ms = d_cpu_time_ms d,
                      speed_improvement_x = d_speed_improvement_x d \<rparr>,
                    price_paths = map (map Num) (d_sample_paths d) \<rparr>)"

text \<open>
  \<^verbatim>\<open>fetchRawPaths\<close>. The guard \<^verbatim>\<open>!allPaths || !allPaths.length || !allPaths[0].length\<close> looks at
  the array and at its first path only. The statistics are computed on all of \<open>allPaths\<close>;
  an exception of \<^verbatim>\<open>computeStatsFromPaths\<close> leaves the function as it is.
\<close>

definition fetchRawPaths ::
  "environment \<Rightarrow> nat \<Rightarrow> string \<Rightarrow> (error + simulation_results) \<times> nat" where
  "fetchRawPaths env pos tk =
     (case raw_endpoint env of
        Unreachable \<Rightarrow> (Inl NetworkFailure, pos)
      | Responded st b \<Rightarrow>
          if \<not> res_ok st then (Inl (HttpStatus st), pos)
          else case b of
            None \<Rightarrow> (Inl InvalidJson, pos)
          | Some json \<Rightarrow>
             (case paths json of
                None \<Rightarrow> (Inl EmptyPaths, pos)
              | Some allPaths \<Rightarrow>
                  if length allPaths = 0 \<or> length (hd allPaths) = 0 then (Inl EmptyPaths, pos)
                  else
                    let startPrice = js_nth (hd allPaths) 0;
                        vizPaths = take VIZ_SAMPLE_COUNT allPaths
                    in case computeStatsFromPaths (random env) pos allPaths startPrice of
                         (Inl e, pos') \<Rightarrow> (Inl e, pos')
                       | (Inr st, pos') \<Rightarrow>
                           let fpgaTime = max 1 (Math_round (apiTime env));
                               cpuTime = Math_round (real_of_int fpgaTime * 15)
                           in (Inr (stats.extend st \<lparr>
                                 ticker = tk,
                                 name = Some tk,
                                 start_price = startPrice,
                                 n_steps = length (hd allPaths),
                                 performance = \<lparr>
                                   fpga_time_ms = real_of_int fpgaTime,
                                   cpu_time_ms = real_of_int cpuTime,
                                   speed_improvement_x =
                                     toFixed_real 1 (real_of_int cpuTime / real_of_int fpgaTime) \<rparr>,
                                 price_paths = vizPaths \<rparr>), pos')))"

section \<open>The path generator\<close>

fun Math_log :: "jsnum \<Rightarrow> jsnum" where
  "Math_log (Num a) = (if a < 0 then NaN else if a = 0 then NInf else fl (ln a))"
| "Math_log PInf = PInf"
| "Math_log x = NaN"

fun Math_sqrt :: "jsnum \<Rightarrow> jsnum" where
  "Math_sqrt (Num a) = (if a < 0 then NaN else fl (sqrt a))"
| "Math_sqrt PInf = PInf"
| "Math_sqrt x = NaN"

fun Math_cos :: "jsnum \<Rightarrow> jsnum" where
  "Math_cos (Num a) = fl (cos a)"
| "Math_cos x = NaN"

text \<open>
  \<^verbatim>\<open>while (u === 0) u = Math.random();\<close> on the loop variable and the position of the
  random source. The loop has no bound: where it does not end, the value is \<open>None\<close>.
\<close>

partial_function (option) reject_zero :: "(nat \<Rightarrow> real) \<Rightarrow> real \<Rightarrow> nat \<Rightarrow> (real \<times> nat) option" where
  "reject_zero rnd u pos = (if u = 0 then reject_zero rnd (rnd pos) (pos + 1) else Some (u, pos))"

definition Math_PI :: jsnum where
  "Math_PI = fl pi"

definition box_muller :: "real \<Rightarrow> real \<Rightarrow> jsnum" where
  "box_muller u v =
     js_mul (Math_sqrt (js_mul (Num (- 2)) (Math_log (Num u))))
       (Math_cos (js_mul (js_mul (Num 2) Math_PI) (Num v)))"

definition gaussRandom :: "(nat \<Rightarrow> real) \<Rightarrow> nat \<Rightarrow> (jsnum \<times> nat) option" where
  "gaussRandom rnd pos =
     do { (u, pos1) \<leftarrow> reject_zero rnd 0 pos;
          (v, pos2) \<leftarrow> reject_zero rnd 0 pos1;
          Some (box_muller u v, pos2) }"

text \<open>
  The loop of \<^verbatim>\<open>generatePath\<close> from the previous price, for the remaining number of steps.
\<close>

fun path_steps ::
  "(nat \<Rightarrow> real) \<Rightarrow> jsnum \<Rightarrow> jsnum \<Rightarrow> nat \<Rightarrow> jsnum \<Rightarrow> nat \<Rightarrow> (jsnum list \<times> nat) option" where
  "path_steps rnd drift vol 0 prev pos = Some ([], pos)"
| "path_steps rnd drift vol (Suc n) prev pos =
     do { (z, pos1) \<leftarrow> gaussRandom rnd pos;
          let x = js_mul prev (Math_exp (js_add drift (js_mul vol z)));
          (rest, pos2) \<leftarrow> path_steps rnd drift vol n x pos1;
          Some (x # rest, pos2) }"

definition dt :: jsnum where
  "dt = js_div (Num 1) (Num 252)"

definition drift_per_step :: "jsnum option \<Rightarrow> jsnum option \<Rightarrow> jsnum" where
  "drift_per_step mu sigma =
     js_mul (js_sub (ToNumber mu) (js_mul (js_mul (Num 0.5) (ToNumber sigma)) (ToNumber sigma))) dt"

definition vol_per_step :: "jsnum option \<Rightarrow> jsnum" where
  "vol_per_step sigma = js_mul (ToNumber sigma) (Math_sqrt dt)"

text \<open>
  \<^verbatim>\<open>generatePath\<close>: a \<^verbatim>\<open>Float64Array\<close> of \<open>days\<close> elements; a store into it converts to a
  number, and \<^verbatim>\<open>path[0] = S0\<close> on an array of length \<open>0\<close> stores nothing.
\<close>

definition generatePath ::
  "(nat \<Rightarrow> real) \<Rightarrow> nat \<Rightarrow> jsnum option \<Rightarrow> nat \<Rightarrow> jsnum option \<Rightarrow> jsnum option
     \<Rightarrow> (jsnum list \<times> nat) option" where
  "generatePath rnd pos S0 days mu sigma =
     (if days = 0 then Some ([], pos)
      else do { (rest, pos') \<leftarrow>
                  path_steps rnd (drift_per_step mu sigma) (vol_per_step sigma) (days - 1)
                    (ToNumber S0) pos;
                Some (ToNumber S0 # rest, pos') })"

section \<open>The configurations and the synthetic fallback\<close>

text \<open>A configuration; its field \<open>name\<close> is \<open>cname\<close> here.\<close>

record config =
  price :: real
  mu :: real
  sigma :: real
  cname :: string

definition SPY :: config where
  "SPY = \<lparr> price = 190.17, mu = 0.082, sigma = 0.176, cname = ''S&P 500 ETF'' \<rparr>"

definition AAPL :: config where
  "AAPL = \<lparr> price = 178.50, mu = 0.105, sigma = 0.248, cname = ''Apple Inc.'' \<rparr>"

definition TSLA :: config where
  "TSLA = \<lparr> price = 245.30, mu = 0.125, sigma = 0.552, cname = ''Tesla Inc.'' \<rparr>"

definition NVDA :: config where
  "NVDA = \<lparr> price = 875.40, mu = 0.148, sigma = 0.395, cname = ''NVIDIA Corp.'' \<rparr>"

text \<open>
  \<open>CONFIGS\<close> is an object literal: \<^verbatim>\<open>CONFIGS[ticker]\<close> finds an own property, and otherwise a
  property of the literal's prototype \<^verbatim>\<open>Object.prototype\<close>: one of its functions (a function
  has a \<open>name\<close>, and no \<open>price\<close>, \<open>mu\<close> or \<open>sigma\<close>), or through the accessor
  \<^verbatim>\<open>__proto__\<close> the prototype object itself. Each of these values is truthy.
\<close>

datatype js_value = ConfigObject config | BuiltinFunction string | PrototypeObject

definition CONFIGS_own :: "(string \<times> config) list" where
  "CONFIGS_own = [(''SPY'', SPY), (''AAPL'', AAPL), (''TSLA'', TSLA), (''NVDA'', NVDA)]"

definition Object_prototype :: "string \<Rightarrow> js_value option" where
  "Object_prototype k =
     (if k = ''constructor'' then Some (BuiltinFunction ''Object'')
      else if k = ''__proto__'' then Some PrototypeObject
      else if k \<in> set [''hasOwnProperty'', ''isPrototypeOf'', ''propertyIsEnumerable'',
                        ''toLocaleString'', ''toString'', ''valueOf'', ''__defineGetter__'',
                        ''__defineSetter__'', ''__lookupGetter__'', ''__lookupSetter__'']
      then Some (BuiltinFunction k)
      else None)"

definition CONFIGS :: "string \<Rightarrow> js_value option" where
  "CONFIGS k =
     (case map_of CONFIGS_own k of Some c \<Rightarrow> Some (ConfigObject c) | None \<Rightarrow> Object_prototype k)"

text \<open>\<^verbatim>\<open>CONFIGS[ticker] || CONFIGS.SPY\<close>, the body of \<^verbatim>\<open>getTickerConfig\<close>.\<close>

definition getTickerConfig :: "string \<Rightarrow> js_value" where
  "getTickerConfig tk = (case CONFIGS tk of Some v \<Rightarrow> v | None \<Rightarrow> ConfigObject SPY)"

fun get_price :: "js_value \<Rightarrow> jsnum option" where
  "get_price (ConfigObject c) = Some (Num (price c))"
| "get_price v = None"

fun get_mu :: "js_value \<Rightarrow> jsnum option" where
  "get_mu (ConfigObject c) = Some (Num (mu c))"
| "get_mu v = None"

fun get_sigma :: "js_value \<Rightarrow> jsnum option" where
  "get_sigma (ConfigObject c) = Some (Num (sigma c))"
| "get_sigma v = None"

fun get_name :: "js_value \<Rightarrow> string option" where
  "get_name (ConfigObject c) = Some (cname c)"
| "get_name (BuiltinFunction f) = Some f"
| "get_name PrototypeObject = None"

text \<open>The loop that fills \<open>allPaths\<close> with \<open>n\<close> generated paths.\<close>

fun generate_paths ::
  "(nat \<Rightarrow> real) \<Rightarrow> js_value \<Rightarrow> nat \<Rightarrow> nat \<Rightarrow> nat \<Rightarrow> (jsnum list list \<times> nat) option" where
  "generate_paths rnd cfg days 0 pos = Some ([], pos)"
| "generate_paths rnd cfg days (Suc n) pos =
     do { (p, pos1) \<leftarrow> generatePath rnd pos (get_price cfg) days (get_mu cfg) (get_sigma cfg);
          (ps, pos2) \<leftarrow> generate_paths rnd cfg days n pos1;
          Some (p # ps, pos2) }"

definition generateMockData ::
  "(nat \<Rightarrow> real) \<Rightarrow> nat \<Rightarrow> string \<Rightarrow> ((error + simulation_results) \<times> nat) option" where
  "generateMockData rnd pos tk =
     (let cfg = getTickerConfig tk;
          S0 = get_price cfg;
          days = 252;
          numPaths = 10000
      in do {
        (allPaths, pos1) \<leftarrow> generate_paths rnd cfg days numPaths pos;
        let vizPaths = take VIZ_SAMPLE_COUNT allPaths;
        case computeStatsFromPaths rnd pos1 allPaths S0 of
          (Inl e, pos2) \<Rightarrow> Some (Inl e, pos2)
        | (Inr st, pos2) \<Rightarrow>
            let fpgaTime = 140 + Math_round (rnd pos2 * 25);
                cpuTime = 2150 + Math_round (rnd (pos2 + 1) * 250)
            in Some (Inr (stats.extend st \<lparr>
                 ticker = tk,
                 name = get_name cfg,
                 start_price = S0,
                 n_steps = days,
                 performance = \<lparr>
                   fpga_time_ms = real_of_int fpgaTime,
                   cpu_time_ms = real_of_int cpuTime,
                   speed_improvement_x =
                     toFixed_real 1 (real_of_int cpuTime / real_of_int fpgaTime) \<rparr>,
                 price_paths = vizPaths \<rparr>), pos2 + 2) })"

section \<open>The acquisition strategy\<close>

text \<open>
  \<^verbatim>\<open>fetchSimulationResults\<close>: each of the first two attempts sits in a \<^verbatim>\<open>try\<close> whose \<^verbatim>\<open>catch\<close>
  only logs; the third is not guarded. The delay before the fallback draws once from the
  random source. The parameter defaults to \<open>'SPY'\<close> when the caller passes none.
\<close>

definition fetchSimulationResults ::
  "environment \<Rightarrow> nat \<Rightarrow> string option \<Rightarrow> ((error + simulation_results) \<times> nat) option" where
  "fetchSimulationResults env pos arg =
     (let tk = (case arg of None \<Rightarrow> ''SPY'' | Some t \<Rightarrow> t) in
      case fetchFull env tk of
        Inr result \<Rightarrow> Some (Inr result, pos)
      | Inl e1 \<Rightarrow>
         (case fetchRawPaths env pos tk of
            (Inr result, pos1) \<Rightarrow> Some (Inr result, pos1)
          | (Inl e2, pos1) \<Rightarrow>
              let delay = 600 + random env pos1 * 400
              in generateMockData (random env) (pos1 + 1) tk))"

section \<open>Notions used in the statements, and example inputs\<close>

text \<open>The statistics that a call returned, if it returned any.\<close>

definition returned :: "(error + stats) \<times> nat \<Rightarrow> stats option" where
  "returned r = (case fst r of Inr st \<Rightarrow> Some st | Inl e \<Rightarrow> None)"

text \<open>
  How the data model words the drawdown metric: the longest unbroken run of steps strictly
  below the start price. \<open>run_ending_at p s d\<close> is the length of the unbroken run of such
  steps that ends at step \<open>d\<close>; step \<open>0\<close> is the start itself and is not a step of the scan.
\<close>

fun run_ending_at :: "jsnum list \<Rightarrow> jsnum option \<Rightarrow> nat \<Rightarrow> nat" where
  "run_ending_at p s 0 = 0"
| "run_ending_at p s (Suc d) =
     (if js_lt (ToNumber (js_nth p (Suc d))) (ToNumber s) then Suc (run_ending_at p s d) else 0)"


definition never_stuck_at_zero :: "(nat \<Rightarrow> real) \<Rightarrow> bool" where
  "never_stuck_at_zero rnd = (\<forall>n. \<exists>m\<ge>n. rnd m \<noteq> 0)"

definition zero_source :: "nat \<Rightarrow> real" where
  "zero_source n = 0"

definition half_source :: "nat \<Rightarrow> real" where
  "half_source n = 1 / 2"

text \<open>A source that delivers \<open>0\<close> for the first 24 draws and \<open>1/2\<close> afterwards.\<close>

definition step_source :: "nat \<Rightarrow> real" where
  "step_source n = (if n < 24 then 0 else 1 / 2)"

text \<open>The three paths of the scenario in the specification, start price 100.\<close>

definition scenario_paths :: "real list list" where
  "scenario_paths =
     [[100, 90, 90, 90, 95], [100, 105, 110, 108, 112], [100, 99, 100, 100, 101]]"

text \<open>
  Twenty one-step paths whose sorted final prices are \<open>1, 3.125, 3.125, 4, ..., 4\<close>: the
  price at index \<open>floor(0.05 * 20) = 1\<close> has more than two decimals and a tie at index \<open>2\<close>.
\<close>

definition tie_paths :: "real list list" where
  "tie_paths = [[1], [3.125], [3.125]] @ replicate 17 [4]"

text \<open>Thirty one-step paths: 29 final prices in the lowest bin, one in the highest.\<close>

definition crowded_paths :: "real list list" where
  "crowded_paths = replicate 29 [1] @ [[25]]"

text \<open>Three paths that all end at the price they started from.\<close>

definition flat_paths :: "real list list" where
  "flat_paths = [[100, 101, 100], [100, 99, 100], [100, 100, 100]]"

text \<open>An ensemble of a single path.\<close>

definition lone_path :: "real list list" where
  "lone_path = [[100, 104]]"

text \<open>
  The mean of a list of finite numbers as the code computes it: the sum is accumulated from
  \<open>0\<close> in list order, one rounded addition per element, and divided by the number of
  elements.
\<close>

definition double_sum :: "real list \<Rightarrow> jsnum" where
  "double_sum xs = fold (\<lambda>x s. js_add s (Num x)) xs (Num 0)"

definition double_mean :: "real list \<Rightarrow> jsnum" where
  "double_mean xs = js_div (double_sum xs) (Num (real (length xs)))"

text \<open>
  Twenty one-step paths whose two lowest final prices are the doubles \<open>1/8 - 2^(-56)\<close> and
  \<open>1/8\<close>: their exact sum is no double and rounds to \<open>1/4\<close>.
\<close>

definition close_paths :: "real list list" where
  "close_paths = [[1 / 8 - 1 / 2 ^ 56], [1 / 8]] @ replicate 18 [1]"

text \<open>
  An ensemble of one path that ends in \<open>NaN\<close>, and an ensemble of one path of length \<open>0\<close>.
\<close>

definition nan_ensemble :: "jsnum list list" where
  "nan_ensemble = [[Num 100, NaN]]"

definition hollow_ensemble :: "jsnum list list" where
  "hollow_ensemble = [[]]"

text \<open>
  Environments: both endpoints down; the full endpoint answering 404 and the raw endpoint
  answering 200 with the scenario's paths after 7.4 ms.
\<close>

definition offline :: environment where
  "offline = \<lparr> full_endpoint = (\<lambda>tk. Unreachable), raw_endpoint = Unreachable,
               apiTime = 0, random = half_source \<rparr>"

definition raw_only :: environment where
  "raw_only = \<lparr> full_endpoint = (\<lambda>tk. Responded 404 None),
                raw_endpoint = Responded 200 (Some \<lparr> paths = Some (map (map Num) scenario_paths) \<rparr>),
                apiTime = 7.4, random = half_source \<rparr>"

section \<open>Rounding\<close>

lemma pow2_pos [simp]: "0 < pow2 e"
  by (simp add: pow2_def)

lemma pow2_nonneg [simp]: "0 \<le> pow2 e"
  by (simp add: pow2_def)


lemma pow2_Suc: "pow2 (e + 1) = 2 * pow2 e"
  by (simp add: pow2_def power_int_add)

lemma pow2_mono: "a \<le> b \<Longrightarrow> pow2 a \<le> pow2 b"
  unfolding pow2_def by (intro power_int_increasing) simp_all

lemma pow2_strict_mono: "a < b \<Longrightarrow> pow2 a < pow2 b"
  unfolding pow2_def by (intro power_int_strict_increasing) simp_all

lemma pow2_less_exp: "pow2 a < pow2 b \<Longrightarrow> a < b"
  using pow2_mono[of b a] by (cases "a < b") auto


lemma binade_bounds: "0 < x \<Longrightarrow> pow2 (binade x) \<le> x \<and> x < pow2 (binade x + 1)"
proof (induction x rule: binade.induct)
  case (1 x)
  show ?case
  proof (cases "2 \<le> x")
    case True
    have b: "binade x = binade (x / 2) + 1" using True by (subst binade.simps) simp
    have "0 < x / 2" using "1.prems" by simp
    then have IH: "pow2 (binade (x / 2)) \<le> x / 2 \<and> x / 2 < pow2 (binade (x / 2) + 1)"
      using "1.IH"(1)[OF True] by blast
    have p: "pow2 (binade (x / 2) + 1 + 1) = 2 * pow2 (binade (x / 2) + 1)"
      by (rule pow2_Suc)
    have p': "pow2 (binade (x / 2) + 1) = 2 * pow2 (binade (x / 2))"
      by (rule pow2_Suc)
    show ?thesis unfolding b p using IH unfolding p' by linarith
  next
    case False
    show ?thesis
    proof (cases "x < 1")
      case True
      have c: "0 < x \<and> x < 1" using True "1.prems" by simp
      have b: "binade x = binade (2 * x) - 1" using False c by (subst binade.simps) simp
      have "0 < 2 * x" using "1.prems" by simp
      then have IH: "pow2 (binade (2 * x)) \<le> 2 * x \<and> 2 * x < pow2 (binade (2 * x) + 1)"
        using "1.IH"(2)[OF False c] by blast
      have p: "pow2 (binade (2 * x)) = 2 * pow2 (binade (2 * x) - 1)"
        using pow2_Suc[of "binade (2 * x) - 1"] by simp
      have p2: "pow2 (binade (2 * x) - 1 + 1) = pow2 (binade (2 * x))" by simp
      have p3: "pow2 (binade (2 * x) + 1) = 2 * pow2 (binade (2 * x))" by (rule pow2_Suc)
      have "pow2 (binade (2 * x) - 1) \<le> x" using IH p by linarith
      moreover have "x < pow2 (binade (2 * x))" using IH p3 by linarith
      ultimately show ?thesis unfolding b p2 by simp
    next
      case ge: False
      have b: "binade x = 0" using False ge by (subst binade.simps) simp
      show ?thesis unfolding b using False ge by (simp add: pow2_def)
    qed
  qed
qed

lemma round_half_even_ge: "of_int n \<le> x \<Longrightarrow> n \<le> round_half_even x"
proof -
  assume "of_int n \<le> x"
  then have "n \<le> \<lfloor>x\<rfloor>" by (simp add: le_floor_iff)
  then show ?thesis unfolding round_half_even_def Let_def by auto
qed

lemma round_half_even_le: "x \<le> of_int n \<Longrightarrow> round_half_even x \<le> n"
proof -
  assume a: "x \<le> of_int n"
  have f: "\<lfloor>x\<rfloor> \<le> n" using a by (simp add: floor_le_iff)
  show ?thesis
  proof (cases "x = of_int \<lfloor>x\<rfloor>")
    case True
    then have "x - of_int \<lfloor>x\<rfloor> = 0" by linarith
    then have "round_half_even x = \<lfloor>x\<rfloor>" unfolding round_half_even_def Let_def by simp
    then show ?thesis using f by simp
  next
    case False
    moreover have "of_int \<lfloor>x\<rfloor> \<le> x" by (rule of_int_floor_le)
    ultimately have "of_int \<lfloor>x\<rfloor> < x" by linarith
    then have "of_int \<lfloor>x\<rfloor> < (of_int n :: real)" using a by linarith
    then have "\<lfloor>x\<rfloor> < n" by simp
    then show ?thesis unfolding round_half_even_def Let_def by auto
  qed
qed

lemma fl_zero [simp]: "fl 0 = Num 0"
  by (simp add: fl_def)

lemma fl_nonneg:
  assumes "0 \<le> x"
  shows "fl x = PInf \<or> (\<exists>y\<ge>0. fl x = Num y)"
proof (cases "x = 0")
  case True
  then show ?thesis by simp
next
  case False
  then have x: "0 < x" using assms by simp
  define q where "q = pow2 (max (binade \<bar>x\<bar>) (- 1022) - 52)"
  have q: "0 < q" unfolding q_def by simp
  have "of_int 0 \<le> x / q" using x q by simp
  then have "0 \<le> round_half_even (x / q)" by (rule round_half_even_ge)
  then have "0 \<le> of_int (round_half_even (x / q)) * q" using q by simp
  then show ?thesis using x unfolding fl_def Let_def q_def[symmetric] by auto
qed




lemma fl_nonpos:
  assumes "x \<le> 0"
  shows "fl x = NInf \<or> (\<exists>y\<le>0. fl x = Num y)"
proof (cases "x = 0")
  case True
  then show ?thesis by simp
next
  case False
  then have x: "x < 0" using assms by simp
  define q where "q = pow2 (max (binade \<bar>x\<bar>) (- 1022) - 52)"
  have q: "0 < q" unfolding q_def by simp
  have "x / q \<le> of_int 0" using x q by (simp add: divide_le_0_iff)
  then have "round_half_even (x / q) \<le> 0" by (rule round_half_even_le)
  then have "of_int (round_half_even (x / q)) * q \<le> 0"
    using q by (simp add: mult_le_0_iff)
  then show ?thesis using x unfolding fl_def Let_def q_def[symmetric] by auto
qed

text \<open>A result of at least \<open>2^(-1074)\<close>, the least positive double, does not round to zero.\<close>

lemma fl_pos:
  assumes "pow2 (- 1074) \<le> x"
  shows "fl x = PInf \<or> (\<exists>y>0. fl x = Num y)"
proof -
  have x: "0 < x" using assms pow2_pos[of "- 1074"] by linarith
  define e where "e = max (binade \<bar>x\<bar>) (- 1022)"
  define q where "q = pow2 (e - 52)"
  have q: "0 < q" unfolding q_def by simp
  have "q \<le> x"
  proof (cases "binade x \<le> - 1022")
    case True
    then have "e = - 1022" unfolding e_def using x by simp
    then show ?thesis unfolding q_def using assms by simp
  next
    case False
    then have "e = binade x" unfolding e_def using x by simp
    then have "q \<le> pow2 (binade x)" unfolding q_def by (intro pow2_mono) simp
    then show ?thesis using binade_bounds[OF x] by linarith
  qed
  then have "of_int 1 \<le> x / q" using q by (simp add: pos_le_divide_eq)
  then have "1 \<le> round_half_even (x / q)" by (rule round_half_even_ge)
  then have "0 < of_int (round_half_even (x / q)) * q" using q by simp
  then show ?thesis using x unfolding fl_def Let_def q_def[symmetric] e_def[symmetric] by auto
qed

text \<open>A non-negative result of at most \<open>2^(-1075)\<close> underflows to zero.\<close>

lemma fl_underflow:
  assumes "0 \<le> x" and "x \<le> pow2 (- 1075)"
  shows "fl x = Num 0"
proof (cases "x = 0")
  case True
  then show ?thesis by simp
next
  case False
  then have x: "0 < x" using assms(1) by simp
  have "pow2 (- 1075) < pow2 (- 1074)" by (rule pow2_strict_mono) simp
  then have "pow2 (binade x) < pow2 (- 1074)" using binade_bounds[OF x] assms(2) by linarith
  then have "binade x < - 1074" by (rule pow2_less_exp)
  then have e: "max (binade \<bar>x\<bar>) (- 1022) = - 1022" using x by simp
  have h: "pow2 (- 1075) = pow2 (- 1074) / 2" using pow2_Suc[of "- 1075"] by simp
  define t where "t = x / pow2 (- 1074)"
  have t: "0 < t" "t \<le> 1 / 2"
    unfolding t_def using x assms(2) h by (simp_all add: pos_divide_le_eq)
  then have f: "\<lfloor>t\<rfloor> = 0" by (simp add: floor_eq_iff)
  have "round_half_even t = 0" unfolding round_half_even_def Let_def f using t by auto
  then show ?thesis
    using False pow2_pos[of 1024] unfolding fl_def Let_def e by (simp add: t_def not_le)
qed





text \<open>
  Every double is an integer multiple of \<open>2^(-1074)\<close>. The rounded difference of two such
  numbers is positive exactly when the first is the greater one: the comparator of the
  sort decides by the order of its arguments. With an infinite argument the difference is
  exact.
\<close>

lemma comparator_sign:
  "js_gt (js_sub (Num (of_int i * pow2 (- 1074))) (Num (of_int j * pow2 (- 1074)))) (Num 0)
   = js_gt (Num (of_int i * pow2 (- 1074))) (Num (of_int j * pow2 (- 1074)))"
proof -
  define q where "q = pow2 (- 1074)"
  have q: "0 < q" unfolding q_def by simp
  have d: "of_int i * q + - (of_int j * q) = of_int (i - j) * q" by (simp add: algebra_simps)
  have eq: "js_sub (Num (of_int i * q)) (Num (of_int j * q)) = fl (of_int (i - j) * q)"
    unfolding js_sub_def js_neg.simps js_add.simps d by (rule refl)
  show ?thesis
  proof (cases "j < i")
    case True
    then have "1 \<le> i - j" by simp
    then have "(1::real) \<le> of_int (i - j)" by linarith
    then have "1 * q \<le> of_int (i - j) * q" using q by (intro mult_right_mono) simp_all
    then have "pow2 (- 1074) \<le> of_int (i - j) * q" unfolding q_def by simp
    then have "fl (of_int (i - j) * q) = PInf \<or> (\<exists>y>0. fl (of_int (i - j) * q) = Num y)"
      by (rule fl_pos)
    then have "js_lt (Num 0) (fl (of_int (i - j) * q))" by auto
    moreover have "of_int j * q < of_int i * q" using True q by simp
    ultimately show ?thesis
      unfolding q_def[symmetric] eq js_gt_def by simp
  next
    case False
    then have "i - j \<le> 0" by simp
    then have "of_int (i - j) \<le> (0::real)" by linarith
    then have "of_int (i - j) * q \<le> 0" using q by (simp add: mult_le_0_iff)
    then have "fl (of_int (i - j) * q) = NInf \<or> (\<exists>y\<le>0. fl (of_int (i - j) * q) = Num y)"
      by (rule fl_nonpos)
    then have "\<not> js_lt (Num 0) (fl (of_int (i - j) * q))" by auto
    moreover have "\<not> of_int j * q < of_int i * q" using False q by simp
    ultimately show ?thesis
      unfolding q_def[symmetric] eq js_gt_def by simp
  qed
qed

lemmas fl_eval = fl_def binade.simps pow2_def round_half_even_def Let_def

lemma comparator_sign_special:
  assumes "x \<in> {PInf, NInf, NaN} \<or> y \<in> {PInf, NInf, NaN}"
  shows "js_gt (js_sub x y) (Num 0) = js_gt x y"
  using assms by (cases x; cases y) (auto simp: js_gt_def js_sub_def)

lemma js_add_NInf: "js_add NInf y = NInf \<or> js_add NInf y = NaN"
  by (cases y) simp_all



section \<open>Finite ensembles\<close>

text \<open>
  An ensemble of finite prices is given as a list \<open>rs\<close> of paths of reals, non-empty and
  with non-empty paths; the code receives \<open>map (map Num) rs\<close>. On such input the comparator sort is the ascending
  sort of the final prices, and the three percentile indices are quotients of the number of
  paths.
\<close>

lemma js_insort_Num: "js_insort (Num a) (map Num xs) = map Num (insort a xs)"
  by (induction xs) (auto simp: js_gt_def)

lemma foldr_js_insort_Num: "foldr js_insort (map Num xs) [] = map Num (sort xs)"
  by (induction xs) (simp_all add: js_insort_Num sort_key_def)

lemma js_sort_Num: "js_sort (map (Some \<circ> Num) xs) = map (Some \<circ> Num) (sort xs)"
proof -
  have "filter (\<lambda>v. v \<noteq> None) (map (Some \<circ> Num) xs) = map (Some \<circ> Num) xs"
    by (induction xs) simp_all
  moreover have "filter (\<lambda>v. v = None) (map (Some \<circ> Num) xs) = []"
    by (induction xs) simp_all
  ultimately show ?thesis
    by (simp add: js_sort_def foldr_js_insort_Num comp_def)
qed

lemma percentile_005: "percentile_index 0.05 n = n div 20"
proof -
  have "\<lfloor>0.05 * real n\<rfloor> = \<lfloor>real n / 20\<rfloor>" by simp
  also have "\<dots> = int (n div 20)" using floor_divide_of_nat_eq[of n 20, where ?'a = real] by simp
  finally show ?thesis by (simp add: percentile_index_def)
qed

lemma percentile_002: "percentile_index 0.02 n = n div 50"
proof -
  have "\<lfloor>0.02 * real n\<rfloor> = \<lfloor>real n / 50\<rfloor>" by simp
  also have "\<dots> = int (n div 50)" using floor_divide_of_nat_eq[of n 50, where ?'a = real] by simp
  finally show ?thesis by (simp add: percentile_index_def)
qed

lemma percentile_098: "percentile_index 0.98 n = (49 * n) div 50"
proof -
  have "\<lfloor>0.98 * real n\<rfloor> = \<lfloor>real (49 * n) / 50\<rfloor>" by simp
  also have "\<dots> = int ((49 * n) div 50)" using floor_divide_of_nat_eq[of "49 * n" 50, where ?'a = real] by simp
  finally show ?thesis by (simp add: percentile_index_def)
qed

lemma finalPrices_Num:
  assumes "[] \<notin> set rs"
  shows "finalPrices (map (map Num) rs) = map (Some \<circ> Num) (map last rs)"
  using assms by (induction rs) (auto simp: finalPrices_def final_price_def js_nth_def last_conv_nth)


lemma sorted_prices_Num:
  assumes "[] \<notin> set rs"
  shows "sorted_prices (map (map Num) rs) = map (Some \<circ> Num) (sort (map last rs))"
  by (simp only: sorted_prices_def finalPrices_Num[OF assms] js_sort_Num)

lemma js_at_Num: "i < length xs \<Longrightarrow> js_at (map (Some \<circ> Num) xs) i = Some (Num (xs ! i))"
  by (simp add: js_at_def)

lemma var95_Num:
  assumes "rs \<noteq> []" and "[] \<notin> set rs"
  shows "var95 (map (map Num) rs) = Some (Num (sort (map last rs) ! (length rs div 20)))"
proof -
  have "length rs div 20 < length (sort (map last rs))"
    using assms(1) by (simp add: div_less_dividend)
  then show ?thesis
    unfolding var95_def percentile_005 by (simp add: sorted_prices_Num[OF assms(2)] js_at_Num)
qed

lemma trimLow_Num:
  assumes "rs \<noteq> []" and "[] \<notin> set rs"
  shows "trimLow (map (map Num) rs) = Num (sort (map last rs) ! (length rs div 50))"
proof -
  have "length rs div 50 < length (sort (map last rs))"
    using assms(1) by (simp add: div_less_dividend)
  then show ?thesis
    unfolding trimLow_def percentile_002 by (simp add: sorted_prices_Num[OF assms(2)] js_at_Num)
qed

lemma trimHigh_Num:
  assumes "rs \<noteq> []" and "[] \<notin> set rs"
  shows "trimHigh (map (map Num) rs) = Num (sort (map last rs) ! (49 * length rs div 50))"
proof -
  have "0 < length rs" using assms(1) by simp
  then have "49 * length rs div 50 < length rs" by arith
  then have "49 * length rs div 50 < length (sort (map last rs))"
    by simp
  then show ?thesis
    unfolding trimHigh_def percentile_098 by (simp add: sorted_prices_Num[OF assms(2)] js_at_Num)
qed

lemma cvarValues_Num:
  assumes "rs \<noteq> []" and "[] \<notin> set rs"
  shows "cvarValues (map (map Num) rs) =
         map (Some \<circ> Num)
           (filter (\<lambda>x. x \<le> sort (map last rs) ! (length rs div 20)) (sort (map last rs)))"
  by (simp add: cvarValues_def var95_Num[OF assms] sorted_prices_Num[OF assms(2)]
      filter_map comp_def not_less)

lemma fold_js_add_Num:
  "fold (\<lambda>v s. js_add s (ToNumber v)) (map (Some \<circ> Num) xs) a
   = fold (\<lambda>x s. js_add s (Num x)) xs a"
  by (induction xs arbitrary: a) simp_all

lemma var95_in_tail:
  assumes "rs \<noteq> []"
  shows "sort (map last rs) ! (length rs div 20)
         \<in> set (filter (\<lambda>x. x \<le> sort (map last rs) ! (length rs div 20)) (sort (map last rs)))"
proof -
  have "length rs div 20 < length (sort (map last rs))"
    using assms by (simp add: div_less_dividend)
  then have "sort (map last rs) ! (length rs div 20) \<in> set (sort (map last rs))"
    by (rule nth_mem)
  then show ?thesis by simp
qed

lemma cvar95_Num:
  assumes "rs \<noteq> []" and "[] \<notin> set rs"
  shows "cvar95 (map (map Num) rs) =
         Some (double_mean (filter (\<lambda>x. x \<le> sort (map last rs) ! (length rs div 20))
                              (sort (map last rs))))"
proof -
  let ?tail = "filter (\<lambda>x. x \<le> sort (map last rs) ! (length rs div 20)) (sort (map last rs))"
  have "?tail \<noteq> []" using var95_in_tail[OF assms(1)] by (metis empty_iff empty_set)
  then have "0 < length ?tail" by simp
  then show ?thesis
    unfolding cvar95_def cvarValues_Num[OF assms] fold_js_add_Num double_mean_def double_sum_def
    by simp
qed

lemma jitter_pos: "snd (jitter rnd pos cs) = pos + length cs"
  by (induction cs arbitrary: pos) (simp_all add: split_beta Let_def)

lemma length_increment_at [simp]: "length (increment_at cs idx) = length cs"
  by (simp add: increment_at_def split: jsnum.splits)

lemma length_count_price [simp]: "length (count_price lo hi w p cs) = length cs"
  by (simp add: count_price_def)

lemma length_fold_count_price [simp]: "length (fold (count_price lo hi w) ps cs) = length cs"
  by (induction ps arbitrary: cs) simp_all

lemma length_fpgaCounts [simp]: "length (fpgaCounts ps) = 24"
  by (simp add: fpgaCounts_def binCount_def)

lemma computeStats_Num_fields:
  assumes "rs \<noteq> []" and "[] \<notin> set rs"
  shows "computeStatsFromPaths rnd pos (map (map Num) rs) s =
    (Inr \<lparr> risk_statistics = \<lparr>
             value_at_risk_95 = Num (toFixed_real 2 (sort (map last rs) ! (length rs div 20))),
             conditional_value_at_risk_95 =
               toFixed 2
                 (double_mean (filter (\<lambda>x. x \<le> sort (map last rs) ! (length rs div 20))
                                 (sort (map last rs)))),
             probability_of_profit = toFixed_real 1 (probProfit (map (map Num) rs) s),
             average_drawdown_days = Math_round (avgDrawdown (map (map Num) rs) s) \<rparr>,
           histogram_data = \<lparr>
             bin_edges = binEdges (map (map Num) rs),
             fpga_counts = fpgaCounts (map (map Num) rs),
             cpu_counts = fst (jitter rnd pos (fpgaCounts (map (map Num) rs))) \<rparr>,
           drawdown_distribution = \<lparr>
             dd_bin_edges = ddLabels (length (hd rs)),
             dd_counts = ddCounts (length (hd rs)) (maxDrawdowns (map (map Num) rs) s) \<rparr> \<rparr>,
     pos + 24)"
proof -
  have hd: "length (hd (map (map Num) rs)) = length (hd rs)"
    using assms(1) by (cases rs) simp_all
  have pos: "snd (jitter rnd pos (fpgaCounts (map (map Num) rs))) = pos + 24"
    by (simp add: jitter_pos)
  show ?thesis
    using assms(1) pos
    by (simp add: computeStatsFromPaths_def var95_Num[OF assms] cvar95_Num[OF assms]
        Let_def split_beta hd del: hd_map)
qed

section \<open>Value at risk and its tail mean\<close>

lemma sort_tie_paths: "sort (map last tie_paths) = [1, 3.125, 3.125] @ replicate 17 4"
  by (simp add: tie_paths_def numeral_eq_Suc)

lemma tie_mean: "toFixed 2 (double_mean [1, 25 / 8, 25 / 8]) = Num (121 / 50)"
  by (simp add: double_mean_def double_sum_def fl_eval toFixed_real_def)

text \<open>
  Claim C3, as the code has it. For every non-empty ensemble of \<open>N\<close> non-empty paths of
  finite prices the call returns, and \<open>value_at_risk_95\<close> is the element at index
  \<open>floor(0.05 * N)\<close> of the ascending final prices, rounded to two decimals.
  \<open>conditional_value_at_risk_95\<close> is taken over all final prices whose value is at most that
  element (elements at a higher index that tie with it included), a list that is not empty:
  it is their mean as double arithmetic computes it, in ascending order, rounded to two
  decimals.
\<close>

theorem var95_cvar95_rounded:
  assumes "rs \<noteq> []" and "[] \<notin> set rs"
  shows "let srt = sort (map last rs);
             v = srt ! percentile_index 0.05 (length rs);
             tail = filter (\<lambda>x. x \<le> v) srt
         in \<exists>st. computeStatsFromPaths rnd pos (map (map Num) rs) s = (Inr st, pos + 24)
              \<and> value_at_risk_95 (risk_statistics st) = Num (toFixed_real 2 v)
              \<and> tail \<noteq> []
              \<and> conditional_value_at_risk_95 (risk_statistics st) = toFixed 2 (double_mean tail)"
proof -
  let ?v = "sort (map last rs) ! (length rs div 20)"
  let ?tail = "filter (\<lambda>x. x \<le> ?v) (sort (map last rs))"
  have "?tail \<noteq> []" using var95_in_tail[OF assms(1)] by (metis empty_iff empty_set)
  then show ?thesis
    unfolding percentile_005 Let_def computeStats_Num_fields[OF assms] by simp
qed

theorem var95_cvar95_rounded_witness:
  "tie_paths \<noteq> [] \<and> [] \<notin> set tie_paths \<and>
   (\<exists>st. computeStatsFromPaths zero_source 0 (map (map Num) tie_paths) (Some (Num 1))
            = (Inr st, 0 + 24)
       \<and> value_at_risk_95 (risk_statistics st) = Num 3.13
       \<and> conditional_value_at_risk_95 (risk_statistics st) = Num 2.42)"
proof -
  have a: "tie_paths \<noteq> []" by (simp add: tie_paths_def)
  have b: "[] \<notin> set tie_paths" by (simp add: tie_paths_def)
  have n: "length tie_paths = 20" by (simp add: tie_paths_def)
  have v: "toFixed_real 2 (25 / 8) = 313 / 100" by (simp add: toFixed_real_def)
  show ?thesis
    using a b var95_cvar95_rounded[OF a b, of zero_source 0 "Some (Num 1)"]
    unfolding Let_def percentile_005 n sort_tie_paths
    by (simp add: v tie_mean)
qed

text \<open>
  Claim C3 as stated fails on \<open>tie_paths\<close>: the element at index \<open>1\<close> is \<open>3.125\<close> and the
  returned value at risk is \<open>3.13\<close>; the mean of the elements up to index \<open>1\<close> is \<open>2.0625\<close>
  (\<open>2.06\<close> when rounded), and the returned tail mean is \<open>2.42\<close>, the rounded mean of
  \<open>1, 3.125, 3.125\<close>.
\<close>

theorem var95_cvar95_unrounded_counterexample:
  "map_option (value_at_risk_95 \<circ> risk_statistics)
     (returned (computeStatsFromPaths zero_source 0 (map (map Num) tie_paths) (Some (Num 1))))
   \<noteq> Some (Num (sort (map last tie_paths) ! percentile_index 0.05 (length tie_paths)))
   \<and> map_option (conditional_value_at_risk_95 \<circ> risk_statistics)
     (returned (computeStatsFromPaths zero_source 0 (map (map Num) tie_paths) (Some (Num 1))))
   \<noteq> Some (Num (sum_list (take (Suc (percentile_index 0.05 (length tie_paths)))
                      (sort (map last tie_paths)))
                 / real (Suc (percentile_index 0.05 (length tie_paths)))))
   \<and> map_option (conditional_value_at_risk_95 \<circ> risk_statistics)
     (returned (computeStatsFromPaths zero_source 0 (map (map Num) tie_paths) (Some (Num 1))))
   \<noteq> Some (Num (toFixed_real 2
                 (sum_list (take (Suc (percentile_index 0.05 (length tie_paths)))
                      (sort (map last tie_paths)))
                 / real (Suc (percentile_index 0.05 (length tie_paths))))))"
proof -
  have a: "tie_paths \<noteq> []" by (simp add: tie_paths_def)
  have b: "[] \<notin> set tie_paths" by (simp add: tie_paths_def)
  have n: "length tie_paths = 20" by (simp add: tie_paths_def)
  show ?thesis
    unfolding computeStats_Num_fields[OF a b] percentile_005 n sort_tie_paths
    by (simp add: returned_def toFixed_real_def tie_mean)
qed

text \<open>
  The mean is the one of double arithmetic, not the exact one. On \<open>close_paths\<close> the tail is
  \<open>1/8 - 2^(-56)\<close> and \<open>1/8\<close>; the sum rounds to \<open>1/4\<close>, its half \<open>1/8\<close> is printed as \<open>0.13\<close>,
  and this is what the call returns, while the exact mean \<open>1/8 - 2^(-57)\<close> is printed as
  \<open>0.12\<close>.
\<close>

lemma close_mean: "toFixed 2 (double_mean [1 / 8 - 1 / 2 ^ 56, 1 / 8]) = Num 0.13"
  by (simp add: double_mean_def double_sum_def fl_eval toFixed_real_def)

lemma close_exact_mean: "toFixed_real 2 ((1 / 8 - 1 / 2 ^ 56 + 1 / 8) / 2) = 0.12"
  by (simp add: toFixed_real_def)

lemma sort_close_paths:
  "sort (map last close_paths) = [1 / 8 - 1 / 2 ^ 56, 1 / 8] @ replicate 18 1"
  by (simp add: close_paths_def numeral_eq_Suc)

lemma mean_is_rounded:
  "map_option (conditional_value_at_risk_95 \<circ> risk_statistics)
     (returned (computeStatsFromPaths zero_source 0 (map (map Num) close_paths) (Some (Num 1))))
   = Some (Num 0.13)"
proof -
  have a: "close_paths \<noteq> []" by (simp add: close_paths_def)
  have b: "[] \<notin> set close_paths" by (simp add: close_paths_def)
  have n: "length close_paths = 20" by (simp add: close_paths_def)
  have t: "filter (\<lambda>x. x \<le> ([1 / 8 - 1 / 2 ^ 56, 1 / 8] @ replicate 18 1) ! (20 div 20))
             ([1 / 8 - 1 / 2 ^ 56, 1 / 8] @ replicate 18 (1::real))
           = [1 / 8 - 1 / 2 ^ 56, 1 / 8]"
    by simp
  show ?thesis
    unfolding computeStats_Num_fields[OF a b] n sort_close_paths t close_mean
    by (simp add: returned_def)
qed

section \<open>The guard of the tail mean\<close>

lemma set_js_insort [simp]: "set (js_insort a xs) = insert a (set xs)"
  by (induction xs) auto

lemma set_foldr_js_insort [simp]: "set (foldr js_insort xs []) = set xs"
  by (induction xs) simp_all

lemma length_js_insort [simp]: "length (js_insort a xs) = Suc (length xs)"
  by (induction xs) simp_all

lemma length_foldr_js_insort [simp]: "length (foldr js_insort xs []) = length xs"
  by (induction xs) simp_all

lemma filter_defined:
  assumes "None \<notin> set xs"
  shows "filter (\<lambda>v. v \<noteq> None) xs = xs" and "filter (\<lambda>v. v = None) xs = []"
proof -
  have "\<forall>v \<in> set xs. v \<noteq> None" using assms by metis
  then show "filter (\<lambda>v. v \<noteq> None) xs = xs" by (rule filter_True)
  have "\<forall>v \<in> set xs. \<not> v = None" using assms by metis
  then show "filter (\<lambda>v. v = None) xs = []" by (simp only: filter_False)
qed

lemma sorted_prices_defined:
  assumes "[] \<notin> set ps"
  shows "length (sorted_prices ps) = length ps" and "None \<notin> set (sorted_prices ps)"
    and "set (sorted_prices ps) = set (finalPrices ps)"
proof -
  have fp: "None \<notin> set (finalPrices ps)"
    using assms by (auto simp: finalPrices_def final_price_def js_nth_def)
  note f = filter_defined[OF fp]
  show "length (sorted_prices ps) = length ps"
    unfolding sorted_prices_def js_sort_def f by (simp add: finalPrices_def)
  show "None \<notin> set (sorted_prices ps)"
    unfolding sorted_prices_def js_sort_def f by auto
  have idem: "Some (the x) = x" if "x \<in> set (finalPrices ps)" for x
    using that fp by (metis option.collapse)
  have "Some ` the ` set (finalPrices ps) = (\<lambda>x. Some (the x)) ` set (finalPrices ps)"
    by (simp add: image_image)
  also have "\<dots> = (\<lambda>x. x) ` set (finalPrices ps)"
    by (rule image_cong) (simp_all add: idem)
  finally have "Some ` the ` set (finalPrices ps) = set (finalPrices ps)" by simp
  then show "set (sorted_prices ps) = set (finalPrices ps)"
    unfolding sorted_prices_def js_sort_def f by simp
qed

lemma finalPrices_last:
  assumes "[] \<notin> set ps"
  shows "finalPrices ps = map (Some \<circ> last) ps"
  using assms by (induction ps) (auto simp: finalPrices_def final_price_def js_nth_def last_conv_nth)

lemma js_le_refl: "v \<noteq> NaN \<Longrightarrow> js_le v v"
  by (cases v) simp_all

lemma var95_defined:
  assumes "ps \<noteq> []" and "[] \<notin> set ps"
  shows "\<exists>v. var95 ps = Some v \<and> Some v \<in> set (sorted_prices ps) \<and> v \<in> set (map last ps)"
proof -
  have k: "length ps div 20 < length (sorted_prices ps)"
    using assms(1) by (simp add: sorted_prices_defined(1)[OF assms(2)] div_less_dividend)
  then have mem: "sorted_prices ps ! (length ps div 20) \<in> set (sorted_prices ps)" by simp
  then have "sorted_prices ps ! (length ps div 20) \<noteq> None"
    using sorted_prices_defined(2)[OF assms(2)] by metis
  then obtain v where v: "sorted_prices ps ! (length ps div 20) = Some v" by blast
  have "var95 ps = Some v"
    unfolding var95_def percentile_005 js_at_def using k v
    by (simp add: sorted_prices_defined(1)[OF assms(2)])
  moreover have "Some v \<in> set (sorted_prices ps)" using mem v by simp
  moreover have "v \<in> set (map last ps)"
    using mem v unfolding sorted_prices_defined(3)[OF assms(2)] finalPrices_last[OF assms(2)]
    by auto
  ultimately show ?thesis by blast
qed

text \<open>
  The tail \<open>cvarValues\<close> is empty exactly when \<open>var95\<close> is \<open>undefined\<close> or \<open>NaN\<close>: a comparison
  with either is false, and every other value of \<open>var95\<close> is an element of the sorted array
  that passes the filter.
\<close>

lemma var95_in_sorted:
  assumes "var95 ps = Some v"
  shows "Some v \<in> set (sorted_prices ps)"
proof -
  define k where "k = percentile_index 0.05 (length (sorted_prices ps))"
  have v: "js_at (sorted_prices ps) k = Some v" using assms unfolding var95_def k_def .
  then have k: "k < length (sorted_prices ps)" unfolding js_at_def by (simp split: if_splits)
  then have "sorted_prices ps ! k = Some v" using v unfolding js_at_def by simp
  then show ?thesis using k by (metis nth_mem)
qed

lemma js_le_NaN [simp]: "\<not> js_le x NaN"
  by (cases x) simp_all

lemma cvarValues_empty_iff:
  "cvarValues ps = [] \<longleftrightarrow> var95 ps = None \<or> var95 ps = Some NaN"
proof (cases "var95 ps")
  case None
  then show ?thesis by (simp add: cvarValues_def filter_empty_conv)
next
  case (Some v)
  show ?thesis
  proof (cases "v = NaN")
    case True
    show ?thesis using Some True by (simp add: cvarValues_def filter_empty_conv)
  next
    case False
    have "Some v \<in> set (sorted_prices ps)" using Some by (rule var95_in_sorted)
    moreover have "js_le (ToNumber (Some v)) (ToNumber (var95 ps))"
      using Some js_le_refl[OF False] by simp
    ultimately have "Some v \<in> set (cvarValues ps)" by (simp add: cvarValues_def)
    then have "cvarValues ps \<noteq> []" by auto
    then show ?thesis using Some False by simp
  qed
qed

text \<open>
  Claim C9, as the code has it. For every non-empty ensemble of non-empty paths none of
  which ends in \<open>NaN\<close>, the filtered tail \<open>cvarValues\<close> contains the element \<open>var95\<close> itself, so
  its length is positive, the division by it is no division by zero, and \<open>cvar95\<close> is
  computed by the first branch of the conditional and not by the fallback.
\<close>

theorem cvar_tail_not_empty:
  assumes "ps \<noteq> []" and "[] \<notin> set ps" and "NaN \<notin> set (map last ps)"
  shows "var95 ps \<in> set (cvarValues ps)
       \<and> 0 < length (cvarValues ps)
       \<and> real (length (cvarValues ps)) \<noteq> 0
       \<and> cvar95 ps
           = Some (js_div (fold (\<lambda>v s. js_add s (ToNumber v)) (cvarValues ps) (Num 0))
                     (Num (real (length (cvarValues ps)))))"
proof -
  obtain v where v: "var95 ps = Some v" "Some v \<in> set (sorted_prices ps)" "v \<in> set (map last ps)"
    using var95_defined[OF assms(1,2)] by blast
  have "v \<noteq> NaN" using v(3) assms(3) by metis
  then have "js_le (ToNumber (Some v)) (ToNumber (var95 ps))"
    using v(1) js_le_refl by simp
  then have "Some v \<in> set (cvarValues ps)" using v(2) by (simp add: cvarValues_def)
  then have mem: "var95 ps \<in> set (cvarValues ps)" using v(1) by simp
  then have len: "0 < length (cvarValues ps)" by (cases "cvarValues ps") auto
  then show ?thesis using mem by (simp add: cvar95_def)
qed

theorem cvar_tail_not_empty_witness:
  "map (map Num) scenario_paths \<noteq> [] \<and> [] \<notin> set (map (map Num) scenario_paths)
   \<and> NaN \<notin> set (map last (map (map Num) scenario_paths))
   \<and> var95 (map (map Num) scenario_paths) = Some (Num 95)
   \<and> cvarValues (map (map Num) scenario_paths) = [Some (Num 95)]
   \<and> cvar95 (map (map Num) scenario_paths) = Some (Num 95)"
proof -
  have a: "map (map Num) scenario_paths \<noteq> []" by (simp add: scenario_paths_def)
  have b: "[] \<notin> set (map (map Num) scenario_paths)" by (simp add: scenario_paths_def)
  have c: "NaN \<notin> set (map last (map (map Num) scenario_paths))"
    by (simp add: scenario_paths_def)
  have d: "scenario_paths \<noteq> []" by (simp add: scenario_paths_def)
  have e: "[] \<notin> set scenario_paths" by (simp add: scenario_paths_def)
  have srt: "sort (map last scenario_paths) = [95, 101, 112]" by (simp add: scenario_paths_def)
  have n: "length scenario_paths = 3" by (simp add: scenario_paths_def)
  have v: "var95 (map (map Num) scenario_paths) = Some (Num 95)"
    unfolding var95_Num[OF d e] srt n by simp
  have t: "cvarValues (map (map Num) scenario_paths) = [Some (Num 95)]"
    unfolding cvarValues_Num[OF d e] srt n by simp
  have f: "fl 95 = Num 95" by (simp add: fl_eval)
  show ?thesis
    using a b c v t cvar_tail_not_empty[OF a b c] unfolding t by (simp add: f)
qed

text \<open>
  Claim C9 as stated, for every non-empty ensemble, fails: the fallback is taken where
  \<open>var95\<close> is \<open>NaN\<close> or \<open>undefined\<close> (\<open>cvarValues_empty_iff\<close>). On \<open>nan_ensemble\<close>, whose only
  path ends in \<open>NaN\<close>, the tail is empty and the call returns the fallback value \<open>NaN\<close>. On
  \<open>hollow_ensemble\<close>, whose only path is empty, the tail is empty, \<open>cvar95\<close> is the fallback
  value \<open>undefined\<close>, and the call throws at \<^verbatim>\<open>var95.toFixed\<close>. (The synthetic fallback passes
  an ensemble of \<open>NaN\<close> prices for a ticker that names an inherited member,
  \<open>inherited_member_takes_fallback\<close> below.)
\<close>

theorem cvar_fallback_taken_counterexample:
  "nan_ensemble \<noteq> []
   \<and> cvarValues nan_ensemble = []
   \<and> var95 nan_ensemble = Some NaN
   \<and> cvar95 nan_ensemble = var95 nan_ensemble
   \<and> map_option (conditional_value_at_risk_95 \<circ> risk_statistics)
       (returned (computeStatsFromPaths half_source 0 nan_ensemble (Some (Num 100))))
     = Some NaN
   \<and> hollow_ensemble \<noteq> []
   \<and> cvarValues hollow_ensemble = []
   \<and> var95 hollow_ensemble = None
   \<and> cvar95 hollow_ensemble = var95 hollow_ensemble
   \<and> fst (computeStatsFromPaths half_source 0 hollow_ensemble None) = Inl TypeError"
proof -
  have s1: "sorted_prices nan_ensemble = [Some NaN]"
    by (simp add: sorted_prices_def finalPrices_def final_price_def js_nth_def js_sort_def
        nan_ensemble_def)
  have v1: "var95 nan_ensemble = Some NaN"
    unfolding var95_def s1 percentile_005 by (simp add: js_at_def)
  have t1: "cvarValues nan_ensemble = []" by (simp add: cvarValues_def s1 v1)
  have c1: "cvar95 nan_ensemble = Some NaN" by (simp add: cvar95_def t1 v1)
  have r1: "map_option (conditional_value_at_risk_95 \<circ> risk_statistics)
       (returned (computeStatsFromPaths half_source 0 nan_ensemble (Some (Num 100))))
     = Some NaN"
    by (simp add: computeStatsFromPaths_def v1 c1 returned_def Let_def split_beta)
      (simp add: nan_ensemble_def)
  have s2: "sorted_prices hollow_ensemble = [None]"
    by (simp add: sorted_prices_def finalPrices_def final_price_def js_sort_def
        hollow_ensemble_def)
  have v2: "var95 hollow_ensemble = None"
    unfolding var95_def s2 percentile_005 by (simp add: js_at_def)
  have t2: "cvarValues hollow_ensemble = []" by (simp add: cvarValues_def s2 v2)
  have c2: "cvar95 hollow_ensemble = None" by (simp add: cvar95_def t2 v2)
  have r2: "fst (computeStatsFromPaths half_source 0 hollow_ensemble None) = Inl TypeError"
    by (simp add: computeStatsFromPaths_def v2 c2 Let_def split_beta)
  show ?thesis
    using v1 t1 c1 r1 v2 t2 c2 r2 by (simp add: nan_ensemble_def hollow_ensemble_def)
qed

section \<open>The drawdown distribution\<close>

lemma ddStep_eq: "ddStep days = max 1 ((days - 1) div 5)"
proof (cases days)
  case 0
  then show ?thesis by (simp add: ddStep_def)
next
  case (Suc n)
  have "(int (Suc n) - 1) div 5 = int (n div 5)" by (simp add: zdiv_int)
  then show ?thesis unfolding Suc ddStep_def by (auto simp: max_def)
qed

lemma ddStep_pos: "0 < ddStep days"
  by (simp add: ddStep_eq)

lemma ddBinEdges_explicit:
  "ddBinEdges days =
     [(0, Some (ddStep days)), (ddStep days, Some (2 * ddStep days)),
      (2 * ddStep days, Some (3 * ddStep days)), (3 * ddStep days, Some (4 * ddStep days)),
      (4 * ddStep days, None)]"
  by (simp add: ddBinEdges_def upt_rec)

lemma in_bucket_Some: "in_bucket (lo, Some hi) = (\<lambda>dd. lo \<le> dd \<and> dd < hi)"
  by (rule ext) (simp add: in_bucket_def)

lemma in_bucket_None: "in_bucket (lo, None) = (\<lambda>dd. lo \<le> dd)"
  by (rule ext) (simp add: in_bucket_def)

lemma ddCounts_explicit:
  "ddCounts days dds =
     [length (filter (\<lambda>dd. dd < ddStep days) dds),
      length (filter (\<lambda>dd. ddStep days \<le> dd \<and> dd < 2 * ddStep days) dds),
      length (filter (\<lambda>dd. 2 * ddStep days \<le> dd \<and> dd < 3 * ddStep days) dds),
      length (filter (\<lambda>dd. 3 * ddStep days \<le> dd \<and> dd < 4 * ddStep days) dds),
      length (filter (\<lambda>dd. 4 * ddStep days \<le> dd) dds)]"
  by (simp add: ddCounts_def ddBinEdges_explicit in_bucket_Some in_bucket_None)

lemma five_buckets_cover:
  assumes "0 < (d::nat)"
  shows "length (filter (\<lambda>dd. dd < d) dds)
       + length (filter (\<lambda>dd. d \<le> dd \<and> dd < 2 * d) dds)
       + length (filter (\<lambda>dd. 2 * d \<le> dd \<and> dd < 3 * d) dds)
       + length (filter (\<lambda>dd. 3 * d \<le> dd \<and> dd < 4 * d) dds)
       + length (filter (\<lambda>dd. 4 * d \<le> dd) dds) = length dds"
  using assms by (induction dds) auto

lemma one_bucket:
  assumes "0 < ddStep days"
  shows "\<exists>!i. i < 5 \<and> in_bucket (ddBinEdges days ! i) dd"
proof -
  let ?d = "ddStep days"
  have cases: "dd < ?d \<or> (?d \<le> dd \<and> dd < 2 * ?d) \<or> (2 * ?d \<le> dd \<and> dd < 3 * ?d)
      \<or> (3 * ?d \<le> dd \<and> dd < 4 * ?d) \<or> 4 * ?d \<le> dd" by linarith
  have b: "\<And>i. i < 5 \<Longrightarrow> in_bucket (ddBinEdges days ! i) dd
          = (i * ?d \<le> dd \<and> (i = 4 \<or> dd < (i + 1) * ?d))"
    by (auto simp: ddBinEdges_def in_bucket_def)
  show ?thesis
  proof (rule ex_ex1I)
    show "\<exists>i. i < 5 \<and> in_bucket (ddBinEdges days ! i) dd"
    proof -
      from cases consider "dd < ?d" | "?d \<le> dd \<and> dd < 2 * ?d" | "2 * ?d \<le> dd \<and> dd < 3 * ?d"
        | "3 * ?d \<le> dd \<and> dd < 4 * ?d" | "4 * ?d \<le> dd" by blast
      then show ?thesis
      proof cases
        case 1 then show ?thesis using b[of 0] by (intro exI[of _ 0]) simp
      next
        case 2 then show ?thesis using b[of 1] by (intro exI[of _ 1]) simp
      next
        case 3 then show ?thesis using b[of 2] by (intro exI[of _ 2]) simp
      next
        case 4 then show ?thesis using b[of 3] by (intro exI[of _ 3]) simp
      next
        case 5 then show ?thesis using b[of 4] by (intro exI[of _ 4]) simp
      qed
    qed
  next
    fix i j
    assume i: "i < 5 \<and> in_bucket (ddBinEdges days ! i) dd"
      and j: "j < 5 \<and> in_bucket (ddBinEdges days ! j) dd"
    have i': "i * ?d \<le> dd \<and> (i = 4 \<or> dd < (i + 1) * ?d)" using i b by blast
    have j': "j * ?d \<le> dd \<and> (j = 4 \<or> dd < (j + 1) * ?d)" using j b by blast
    show "i = j"
    proof (rule ccontr)
      assume "i \<noteq> j"
      then consider "i < j" | "j < i" by linarith
      then show False
      proof cases
        case 1
        then have "(i + 1) * ?d \<le> j * ?d" by (intro mult_le_mono1) simp
        moreover have "i \<noteq> 4" using 1 j by linarith
        ultimately show False using i' j' by linarith
      next
        case 2
        then have "(j + 1) * ?d \<le> i * ?d" by (intro mult_le_mono1) simp
        moreover have "j \<noteq> 4" using 2 i by linarith
        ultimately show False using i' j' by linarith
      qed
    qed
  qed
qed


text \<open>
  Claim C5. For every ensemble of \<open>N\<close> paths, with \<open>days\<close> the length of the first path, the
  call returns, the five buckets are \<open>[i * ddStep, (i + 1) * ddStep)\<close> for \<open>i = 0, ..., 3\<close> and
  \<open>[4 * ddStep, \<infinity>)\<close> with \<open>ddStep = max(1, floor((days - 1) / 5))\<close>, each count is the number
  of paths whose longest drawdown run lies in the bucket, every such run lies in exactly one
  bucket, and the counts add up to \<open>N\<close>. (This holds for every \<open>days\<close>, so also from 2 on.)
\<close>

theorem drawdown_buckets_partition:
  assumes "rs \<noteq> []" and "[] \<notin> set rs"
  shows "let days = length (hd rs);
             d = max 1 ((days - 1) div 5);
             dds = maxDrawdowns (map (map Num) rs) s
         in \<exists>st. computeStatsFromPaths rnd pos (map (map Num) rs) s = (Inr st, pos + 24)
              \<and> ddBinEdges days
                  = [(0, Some d), (d, Some (2 * d)), (2 * d, Some (3 * d)),
                     (3 * d, Some (4 * d)), (4 * d, None)]
              \<and> dd_counts (drawdown_distribution st)
                  = [length (filter (\<lambda>dd. dd < d) dds),
                     length (filter (\<lambda>dd. d \<le> dd \<and> dd < 2 * d) dds),
                     length (filter (\<lambda>dd. 2 * d \<le> dd \<and> dd < 3 * d) dds),
                     length (filter (\<lambda>dd. 3 * d \<le> dd \<and> dd < 4 * d) dds),
                     length (filter (\<lambda>dd. 4 * d \<le> dd) dds)]
              \<and> length dds = length rs
              \<and> sum_list (dd_counts (drawdown_distribution st)) = length rs
              \<and> list_all (\<lambda>dd. \<exists>!i. i < 5 \<and> in_bucket (ddBinEdges days ! i) dd) dds"
proof -
  let ?days = "length (hd rs)"
  let ?dds = "maxDrawdowns (map (map Num) rs) s"
  have len: "length ?dds = length rs" by (simp add: maxDrawdowns_def)
  have sum: "sum_list (ddCounts ?days ?dds) = length rs"
    unfolding ddCounts_explicit using five_buckets_cover[OF ddStep_pos, of ?days ?dds] len
    by simp
  have one: "list_all (\<lambda>dd. \<exists>!i. i < 5 \<and> in_bucket (ddBinEdges ?days ! i) dd) ?dds"
    unfolding list_all_iff using one_bucket[OF ddStep_pos] by blast
  show ?thesis
    unfolding Let_def computeStats_Num_fields[OF assms] ddStep_eq[symmetric]
    using len sum one by (simp add: ddBinEdges_explicit ddCounts_explicit)
qed

theorem drawdown_buckets_partition_witness:
  "scenario_paths \<noteq> [] \<and> [] \<notin> set scenario_paths \<and>
   (\<exists>st. computeStatsFromPaths half_source 0 (map (map Num) scenario_paths) (Some (Num 100))
           = (Inr st, 24)
      \<and> dd_counts (drawdown_distribution st) = [1, 1, 0, 0, 1]
      \<and> sum_list (dd_counts (drawdown_distribution st)) = 3)"
proof -
  have a: "scenario_paths \<noteq> []" by (simp add: scenario_paths_def)
  have b: "[] \<notin> set scenario_paths" by (simp add: scenario_paths_def)
  have dds: "maxDrawdowns (map (map Num) scenario_paths) (Some (Num 100)) = [4, 0, 1]"
    by (simp add: scenario_paths_def maxDrawdowns_def maxDrawdown_def dd_step_def js_nth_def
        upt_rec)
  have d: "length (hd scenario_paths) = 5" by (simp add: scenario_paths_def)
  show ?thesis
    using a b drawdown_buckets_partition[OF a b, where rnd = half_source and pos = 0
        and s = "Some (Num 100)"]
    unfolding Let_def dds d by auto
qed

section \<open>The drawdown scan and the scenario of the specification\<close>

lemma fold_dd_step:
  "fold (dd_step p s) [1..<Suc d] (0, 0)
   = (Max (insert 0 (run_ending_at p s ` {1..<Suc d})), run_ending_at p s d)"
proof (induction d)
  case 0
  then show ?case by simp
next
  case (Suc d)
  have img: "run_ending_at p s ` {1..<Suc (Suc d)}
             = insert (run_ending_at p s (Suc d)) (run_ending_at p s ` {1..<Suc d})"
  proof -
    have "{1..<Suc (Suc d)} = insert (Suc d) {1..<Suc d}" by auto
    then show ?thesis by (simp only: image_insert)
  qed
  have mx: "Max (insert 0 (run_ending_at p s ` {1..<Suc (Suc d)}))
            = max (run_ending_at p s (Suc d)) (Max (insert 0 (run_ending_at p s ` {1..<Suc d})))"
    unfolding img by (subst insert_commute) (simp del: Max_insert add: Max_insert)
  have "fold (dd_step p s) [1..<Suc (Suc d)] (0, 0)
        = dd_step p s (Suc d) (fold (dd_step p s) [1..<Suc d] (0, 0))"
    by simp
  also have "\<dots> = dd_step p s (Suc d)
        (Max (insert 0 (run_ending_at p s ` {1..<Suc d})), run_ending_at p s d)"
    by (simp only: Suc.IH)
  also have "\<dots> = (max (run_ending_at p s (Suc d))
                       (Max (insert 0 (run_ending_at p s ` {1..<Suc d}))),
                    run_ending_at p s (Suc d))"
  proof -
    define M where "M = Max (insert 0 (run_ending_at p s ` {1..<Suc d}))"
    have "dd_step p s (Suc d) (M, run_ending_at p s d)
          = (max (run_ending_at p s (Suc d)) M, run_ending_at p s (Suc d))"
      by (simp add: dd_step_def Let_def max_def)
    then show ?thesis unfolding M_def .
  qed
  also have "\<dots> = (Max (insert 0 (run_ending_at p s ` {1..<Suc (Suc d)})),
                    run_ending_at p s (Suc d))"
    by (simp only: mx)
  finally show ?case .
qed

lemma maxDrawdown_longest_run:
  "maxDrawdown days s p = Max (insert 0 (run_ending_at p s ` {1..<days}))"
proof (cases days)
  case 0
  then show ?thesis by (simp add: maxDrawdown_def)
next
  case (Suc d)
  then show ?thesis unfolding maxDrawdown_def by (simp only: fold_dd_step fst_conv)
qed

lemma scenario_drawdowns:
  "maxDrawdowns (map (map Num) scenario_paths) (Some (Num 100)) = [4, 0, 1]"
  by (simp add: scenario_paths_def maxDrawdowns_def maxDrawdown_def dd_step_def js_nth_def
      upt_rec)

lemma scenario_probProfit:
  "probProfit (map (map Num) scenario_paths) (Some (Num 100)) = 200 / 3"
  by (simp add: probProfit_def scenario_paths_def finalPrices_def final_price_def js_nth_def
      js_gt_def)

text \<open>
  Claim C7, with the scenario's first value as the code computes it. The scan over the steps
  \<open>1, ..., days - 1\<close> of a path yields the length of the longest unbroken run of steps strictly
  below the start price. On the three paths of the scenario with start price 100 the runs
  are \<open>[4, 0, 1]\<close>: in the first path all four steps \<open>90, 90, 90, 95\<close> are below 100. The
  probability of profit is \<open>66.7\<close>.
\<close>

theorem drawdown_scan_and_scenario:
  "maxDrawdown days s p = Max (insert 0 (run_ending_at p s ` {1..<days}))
   \<and> maxDrawdowns (map (map Num) scenario_paths) (Some (Num 100)) = [4, 0, 1]
   \<and> map_option (probability_of_profit \<circ> risk_statistics)
       (returned (computeStatsFromPaths rnd pos (map (map Num) scenario_paths) (Some (Num 100))))
     = Some 66.7"
proof -
  have a: "scenario_paths \<noteq> []" by (simp add: scenario_paths_def)
  have b: "[] \<notin> set scenario_paths" by (simp add: scenario_paths_def)
  have "map_option (probability_of_profit \<circ> risk_statistics)
       (returned (computeStatsFromPaths rnd pos (map (map Num) scenario_paths) (Some (Num 100))))
     = Some 66.7"
    unfolding computeStats_Num_fields[OF a b] scenario_probProfit
    by (simp add: returned_def toFixed_real_def)
  then show ?thesis using maxDrawdown_longest_run scenario_drawdowns by blast
qed

text \<open>Claim C7 as stated gives \<open>[3, 0, 1]\<close> for the scenario.\<close>

theorem scenario_drawdowns_counterexample:
  "maxDrawdowns (map (map Num) scenario_paths) (Some (Num 100)) \<noteq> [3, 0, 1]"
  by (simp add: scenario_paths_def maxDrawdowns_def maxDrawdown_def dd_step_def js_nth_def
      upt_rec)

section \<open>The histogram\<close>

lemma sum_list_zeros: "sum_list (replicate n (0::nat)) = 0"
  by (induction n) simp_all

lemma sum_list_increment_at: "sum_list (increment_at cs idx) \<le> sum_list cs + 1"
  by (auto simp: increment_at_def sum_list_update split: jsnum.splits)

lemma sum_list_count_price: "sum_list (count_price lo hi w p cs) \<le> sum_list cs + 1"
  using sum_list_increment_at by (simp add: count_price_def)

lemma sum_list_fold_count_price:
  "sum_list (fold (count_price lo hi w) ps cs) \<le> sum_list cs + length ps"
proof (induction ps arbitrary: cs)
  case Nil
  then show ?case by simp
next
  case (Cons p ps)
  have "sum_list (fold (count_price lo hi w) ps (count_price lo hi w p cs))
        \<le> sum_list (count_price lo hi w p cs) + length ps"
    by (rule Cons.IH)
  also have "\<dots> \<le> sum_list cs + 1 + length ps"
    using sum_list_count_price[of lo hi w p cs] by simp
  finally show ?case by simp
qed

lemma histogram_sum_le: "sum_list (fpgaCounts ps) \<le> length ps"
  using sum_list_fold_count_price[of "trimLow ps" "trimHigh ps" "binWidth ps" "finalPrices ps"
      "replicate binCount 0"]
  by (simp add: fpgaCounts_def finalPrices_def binCount_def sum_list_zeros)

lemma count_price_zero_width:
  "count_price (Num t) (Num t) (Num 0) (Some (Num p)) cs = cs"
proof (cases "p = t")
  case True
  then show ?thesis by (simp add: count_price_def js_gt_def js_sub_def increment_at_def)
next
  case False
  then have "p < t \<or> t < p" by linarith
  then show ?thesis by (auto simp: count_price_def js_gt_def)
qed

lemma fold_count_price_zero_width:
  "fold (count_price (Num t) (Num t) (Num 0)) (map (Some \<circ> Num) fs) cs = cs"
  by (induction fs arbitrary: cs) (simp_all add: count_price_zero_width)

lemma fpgaCounts_degenerate:
  assumes "rs \<noteq> []" and "[] \<notin> set rs"
    and "trimLow (map (map Num) rs) = trimHigh (map (map Num) rs)"
  shows "binWidth (map (map Num) rs) = Num 0"
    and "fpgaCounts (map (map Num) rs) = replicate 24 0"
proof -
  obtain t where lo: "trimLow (map (map Num) rs) = Num t"
    using trimLow_Num[OF assms(1,2)] by blast
  then have hi: "trimHigh (map (map Num) rs) = Num t" using assms(3) by simp
  show w: "binWidth (map (map Num) rs) = Num 0"
    by (simp add: binWidth_def lo hi js_sub_def binCount_def)
  show "fpgaCounts (map (map Num) rs) = replicate 24 0"
    unfolding fpgaCounts_def lo hi w finalPrices_Num[OF assms(2)] binCount_def
    by (rule fold_count_price_zero_width)
qed

text \<open>
  Where the bin width is a positive finite number, every final price of the trimmed range
  gets an index from \<open>0\<close> to \<open>23\<close> and is counted in one bin. (The difference \<open>p - trimLow\<close>
  and the quotient are rounded, and either can overflow to \<open>Infinity\<close>, which \<^verbatim>\<open>Math.min\<close>
  turns into \<open>23\<close>.)
\<close>

lemma bin_index_Num:
  assumes "0 < w" and "lo \<le> p"
  shows "\<exists>j. 0 \<le> j \<and> j \<le> 23
           \<and> Math_min (Math_floor (js_div (js_sub (Num p) (Num lo)) (Num w))) (Num 23)
               = Num (of_int j)"
proof -
  have "0 \<le> p + - lo" using assms(2) by simp
  then have "fl (p + - lo) = PInf \<or> (\<exists>d\<ge>0. fl (p + - lo) = Num d)" by (rule fl_nonneg)
  then show ?thesis
  proof
    assume "fl (p + - lo) = PInf"
    then have "Math_min (Math_floor (js_div (js_sub (Num p) (Num lo)) (Num w))) (Num 23)
               = Num (of_int 23)"
      using assms(1) by (simp add: js_sub_def)
    then show ?thesis by (intro exI[of _ 23]) simp
  next
    assume "\<exists>d\<ge>0. fl (p + - lo) = Num d"
    then obtain d where d: "0 \<le> d" "fl (p + - lo) = Num d" by blast
    have q: "js_div (js_sub (Num p) (Num lo)) (Num w) = fl (d / w)"
      using assms(1) d(2) by (simp add: js_sub_def)
    have "0 \<le> d / w" using d(1) assms(1) by simp
    then have "fl (d / w) = PInf \<or> (\<exists>k\<ge>0. fl (d / w) = Num k)" by (rule fl_nonneg)
    then show ?thesis
    proof
      assume "fl (d / w) = PInf"
      then have "Math_min (Math_floor (js_div (js_sub (Num p) (Num lo)) (Num w))) (Num 23)
                 = Num (of_int 23)"
        unfolding q by simp
      then show ?thesis by (intro exI[of _ 23]) simp
    next
      assume "\<exists>k\<ge>0. fl (d / w) = Num k"
      then obtain k where k: "0 \<le> k" "fl (d / w) = Num k" by blast
      have "Math_min (Math_floor (js_div (js_sub (Num p) (Num lo)) (Num w))) (Num 23)
            = Num (of_int (min \<lfloor>k\<rfloor> 23))"
        unfolding q k(2) by (simp add: min_def)
      moreover have "0 \<le> min \<lfloor>k\<rfloor> 23" using k(1) by simp
      moreover have "min \<lfloor>k\<rfloor> 23 \<le> 23" by simp
      ultimately show ?thesis by blast
    qed
  qed
qed

lemma increment_at_index:
  assumes "0 \<le> j" and "nat j < length cs"
  shows "increment_at cs (Num (of_int j)) = cs[nat j := cs ! nat j + 1]"
  using assms by (simp add: increment_at_def)

lemma count_price_Num:
  assumes "0 < w" and "length cs = 24"
  shows "\<exists>j<24. count_price (Num lo) (Num hi) (Num w) (Some (Num p)) cs =
     (if p < lo \<or> hi < p then cs else cs[j := cs ! j + 1])"
proof (cases "p < lo \<or> hi < p")
  case True
  then have "count_price (Num lo) (Num hi) (Num w) (Some (Num p)) cs = cs"
    by (auto simp: count_price_def js_gt_def)
  then show ?thesis using True by (intro exI[of _ 0]) simp
next
  case False
  then have "lo \<le> p" by simp
  then obtain j where j: "0 \<le> j" "j \<le> 23"
      "Math_min (Math_floor (js_div (js_sub (Num p) (Num lo)) (Num w))) (Num 23) = Num (of_int j)"
    using bin_index_Num[OF assms(1)] by blast
  have n: "nat j < length cs" using j(1,2) assms(2) by simp
  have "count_price (Num lo) (Num hi) (Num w) (Some (Num p)) cs = cs[nat j := cs ! nat j + 1]"
    using False j(3) increment_at_index[OF j(1) n]
    by (simp add: count_price_def js_gt_def binCount_def)
  then show ?thesis using False n assms(2) by (intro exI[of _ "nat j"]) simp
qed

lemma sum_list_count_price_Num:
  assumes "0 < w" and "length cs = 24"
  shows "sum_list (count_price (Num lo) (Num hi) (Num w) (Some (Num p)) cs)
         = sum_list cs + (if lo \<le> p \<and> p \<le> hi then 1 else 0)"
proof -
  obtain j where j: "j < 24"
      "count_price (Num lo) (Num hi) (Num w) (Some (Num p)) cs =
         (if p < lo \<or> hi < p then cs else cs[j := cs ! j + 1])"
    using count_price_Num[OF assms] by blast
  show ?thesis
  proof (cases "lo \<le> p \<and> p \<le> hi")
    case True
    then show ?thesis using j assms(2) by (simp add: sum_list_update not_less)
  next
    case False
    then have "p < lo \<or> hi < p" by linarith
    then show ?thesis using j(2) False by simp
  qed
qed

lemma sum_list_fold_count_price_Num:
  assumes "0 < w" and "length cs = 24"
  shows "sum_list (fold (count_price (Num lo) (Num hi) (Num w)) (map (Some \<circ> Num) fs) cs)
         = sum_list cs + length (filter (\<lambda>p. lo \<le> p \<and> p \<le> hi) fs)"
  using assms(2)
proof (induction fs arbitrary: cs)
  case Nil
  then show ?case by simp
next
  case (Cons p fs)
  have len: "length (count_price (Num lo) (Num hi) (Num w) (Some (Num p)) cs) = 24"
    using Cons.prems by simp
  show ?case
    using Cons.IH[OF len] sum_list_count_price_Num[OF assms(1) Cons.prems, of lo hi p]
    by simp
qed

lemma histogram_sum_Num:
  assumes "rs \<noteq> []" and "[] \<notin> set rs"
    and "binWidth (map (map Num) rs) = Num w" and "0 < w"
  shows "sum_list (fpgaCounts (map (map Num) rs))
         = length (filter (\<lambda>p. sort (map last rs) ! (length rs div 50) \<le> p
                              \<and> p \<le> sort (map last rs) ! (49 * length rs div 50))
                     (map last rs))"
proof -
  let ?lo = "sort (map last rs) ! (length rs div 50)"
  let ?hi = "sort (map last rs) ! (49 * length rs div 50)"
  have "sum_list (fold (count_price (Num ?lo) (Num ?hi) (Num w))
                    (map (Some \<circ> Num) (map last rs)) (replicate 24 0))
        = sum_list (replicate 24 (0::nat)) + length (filter (\<lambda>p. ?lo \<le> p \<and> p \<le> ?hi) (map last rs))"
    by (rule sum_list_fold_count_price_Num[OF assms(4)]) simp
  then show ?thesis
    unfolding fpgaCounts_def assms(3) trimLow_Num[OF assms(1,2)] trimHigh_Num[OF assms(1,2)]
      finalPrices_Num[OF assms(2)] binCount_def
    by (simp only: sum_list_zeros add_0)
qed

lemma length_filter_full: "length (filter P xs) = length xs \<longleftrightarrow> (\<forall>x \<in> set xs. P x)"
proof
  assume "length (filter P xs) = length xs"
  then have "filter P xs = xs" by (metis length_filter_less less_irrefl filter_True)
  then show "\<forall>x \<in> set xs. P x" by (metis filter_id_conv)
next
  assume "\<forall>x \<in> set xs. P x"
  then show "length (filter P xs) = length xs" by simp
qed

lemma histogram_sum_full_iff:
  assumes "rs \<noteq> []" and "[] \<notin> set rs"
    and "binWidth (map (map Num) rs) = Num w" and "0 < w"
  shows "sum_list (fpgaCounts (map (map Num) rs)) = length rs
         \<longleftrightarrow> (\<forall>p \<in> set (map last rs). sort (map last rs) ! (length rs div 50) \<le> p
                  \<and> p \<le> sort (map last rs) ! (49 * length rs div 50))"
  unfolding histogram_sum_Num[OF assms]
  using length_filter_full[of _ "map last rs"] by simp

text \<open>
  Claim C10. Whenever the two trimming percentiles of an ensemble coincide, the bin width is
  \<open>0\<close>; for every final price that passes the range test the quotient
  \<open>(p - trimLow) / binWidth\<close> is \<open>0 / 0 = NaN\<close>, which is no index of the array; the call
  returns with all 24 counts \<open>0\<close>, so they sum to \<open>0\<close> and not to the positive number of
  paths. \<open>flat_paths\<close> is such an ensemble, and all its final prices lie within the trimmed
  range.
\<close>

theorem degenerate_range_counts_nothing:
  assumes "rs \<noteq> []" and "[] \<notin> set rs"
    and "trimLow (map (map Num) rs) = trimHigh (map (map Num) rs)"
  shows "binWidth (map (map Num) rs) = Num 0
       \<and> list_all (\<lambda>p. js_lt (ToNumber p) (trimLow (map (map Num) rs))
                      \<or> js_gt (ToNumber p) (trimHigh (map (map Num) rs))
                      \<or> js_div (js_sub (ToNumber p) (trimLow (map (map Num) rs)))
                           (binWidth (map (map Num) rs)) = NaN)
           (finalPrices (map (map Num) rs))
       \<and> (\<exists>st. computeStatsFromPaths rnd pos (map (map Num) rs) s = (Inr st, pos + 24)
             \<and> fpga_counts (histogram_data st) = replicate 24 0
             \<and> sum_list (fpga_counts (histogram_data st)) = 0)
       \<and> 0 < length rs"
proof -
  obtain t where lo: "trimLow (map (map Num) rs) = Num t"
    using trimLow_Num[OF assms(1,2)] by blast
  then have hi: "trimHigh (map (map Num) rs) = Num t" using assms(3) by simp
  have w: "binWidth (map (map Num) rs) = Num 0"
    by (rule fpgaCounts_degenerate(1)[OF assms])
  have z: "fpgaCounts (map (map Num) rs) = replicate 24 0"
    by (rule fpgaCounts_degenerate(2)[OF assms])
  have nan: "list_all (\<lambda>p. js_lt (ToNumber p) (Num t) \<or> js_gt (ToNumber p) (Num t)
                      \<or> js_div (js_sub (ToNumber p) (Num t)) (Num 0) = NaN)
           (map (Some \<circ> Num) (map last rs))"
  proof -
    have "js_lt (Num p) (Num t) \<or> js_gt (Num p) (Num t)
          \<or> js_div (js_sub (Num p) (Num t)) (Num 0) = NaN" for p
    proof (cases "p = t")
      case True
      then show ?thesis by (simp add: js_sub_def)
    next
      case False
      then have "p < t \<or> t < p" by linarith
      then show ?thesis by (auto simp: js_gt_def)
    qed
    then show ?thesis by (simp add: list_all_iff)
  qed
  show ?thesis
    unfolding computeStats_Num_fields[OF assms(1,2)] z w lo hi
    using nan assms(1) by (simp add: finalPrices_Num[OF assms(2)] sum_list_zeros)
qed

theorem degenerate_range_counts_nothing_witness:
  "flat_paths \<noteq> [] \<and> [] \<notin> set flat_paths
   \<and> trimLow (map (map Num) flat_paths) = trimHigh (map (map Num) flat_paths)
   \<and> list_all (\<lambda>p. \<not> js_lt (ToNumber p) (trimLow (map (map Num) flat_paths))
                  \<and> \<not> js_gt (ToNumber p) (trimHigh (map (map Num) flat_paths)))
       (finalPrices (map (map Num) flat_paths))
   \<and> binWidth (map (map Num) flat_paths) = Num 0
   \<and> (\<exists>st. computeStatsFromPaths half_source 0 (map (map Num) flat_paths) (Some (Num 100))
             = (Inr st, 0 + 24)
         \<and> fpga_counts (histogram_data st) = replicate 24 0
         \<and> sum_list (fpga_counts (histogram_data st)) = 0)
   \<and> length flat_paths = 3"
proof -
  have a: "flat_paths \<noteq> []" by (simp add: flat_paths_def)
  have b: "[] \<notin> set flat_paths" by (simp add: flat_paths_def)
  have lo: "trimLow (map (map Num) flat_paths) = Num 100"
    unfolding trimLow_Num[OF a b] by (simp add: flat_paths_def)
  have hi: "trimHigh (map (map Num) flat_paths) = Num 100"
    unfolding trimHigh_Num[OF a b] by (simp add: flat_paths_def)
  have c: "trimLow (map (map Num) flat_paths) = trimHigh (map (map Num) flat_paths)"
    by (simp add: lo hi)
  have fp: "finalPrices (map (map Num) flat_paths) = [Some (Num 100), Some (Num 100), Some (Num 100)]"
    unfolding finalPrices_Num[OF b] by (simp add: flat_paths_def)
  have n: "length flat_paths = 3" by (simp add: flat_paths_def)
  have r: "list_all (\<lambda>p. \<not> js_lt (ToNumber p) (trimLow (map (map Num) flat_paths))
                  \<and> \<not> js_gt (ToNumber p) (trimHigh (map (map Num) flat_paths)))
       (finalPrices (map (map Num) flat_paths))"
    unfolding lo hi fp by (simp add: js_gt_def)
  show ?thesis
    using a b c r n
      degenerate_range_counts_nothing[OF a b c, where rnd = half_source and pos = 0
        and s = "Some (Num 100)"]
    by blast
qed

text \<open>
  Claim C6 at an ensemble of one path, \<open>lone_path\<close>: the call returns, the only final price is
  not outside the trimmed range, and the counts sum to \<open>0\<close>, not to the number of paths \<open>1\<close>.
  (The sum is at most \<open>N\<close> on every input, \<open>histogram_sum_le\<close>. Where the bin width is a
  positive finite number, it is the number of final prices in the range and equals \<open>N\<close>
  exactly when no final price lies outside, \<open>histogram_sum_Num\<close> and
  \<open>histogram_sum_full_iff\<close>.)
\<close>

theorem histogram_sum_lone_path:
  "returned (computeStatsFromPaths half_source 0 (map (map Num) lone_path) (Some (Num 100)))
     \<noteq> None
   \<and> map_option (sum_list \<circ> fpga_counts \<circ> histogram_data)
       (returned (computeStatsFromPaths half_source 0 (map (map Num) lone_path) (Some (Num 100))))
     = Some 0
   \<and> length (map (map Num) lone_path) = 1
   \<and> list_all (\<lambda>p. \<not> js_lt (ToNumber p) (trimLow (map (map Num) lone_path))
                  \<and> \<not> js_gt (ToNumber p) (trimHigh (map (map Num) lone_path)))
       (finalPrices (map (map Num) lone_path))"
proof -
  have a: "lone_path \<noteq> []" by (simp add: lone_path_def)
  have b: "[] \<notin> set lone_path" by (simp add: lone_path_def)
  have lo: "trimLow (map (map Num) lone_path) = Num 104"
    unfolding trimLow_Num[OF a b] by (simp add: lone_path_def)
  have hi: "trimHigh (map (map Num) lone_path) = Num 104"
    unfolding trimHigh_Num[OF a b] by (simp add: lone_path_def)
  have z: "fpgaCounts (map (map Num) lone_path) = replicate 24 0"
    by (rule fpgaCounts_degenerate(2)[OF a b]) (simp add: lo hi)
  have fp: "finalPrices (map (map Num) lone_path) = [Some (Num 104)]"
    unfolding finalPrices_Num[OF b] by (simp add: lone_path_def)
  show ?thesis
    unfolding computeStats_Num_fields[OF a b] z lo hi fp
    by (simp add: returned_def js_gt_def sum_list_zeros lone_path_def)
qed

section \<open>Repeated calls\<close>

lemma jitter_cong:
  assumes "\<forall>i<length cs. rnd1 (pos1 + i) = rnd2 (pos2 + i)"
  shows "fst (jitter rnd1 pos1 cs) = fst (jitter rnd2 pos2 cs)"
  using assms
proof (induction cs arbitrary: pos1 pos2)
  case Nil
  then show ?case by simp
next
  case (Cons c cs)
  have h: "rnd1 pos1 = rnd2 pos2" using Cons.prems by force
  have "\<forall>i<length cs. rnd1 (pos1 + 1 + i) = rnd2 (pos2 + 1 + i)"
    using Cons.prems by (auto simp: add.assoc dest: spec[of _ "Suc _"])
  then have "fst (jitter rnd1 (pos1 + 1) cs) = fst (jitter rnd2 (pos2 + 1) cs)"
    by (rule Cons.IH)
  then show ?case using h by (simp add: split_beta Let_def)
qed

lemma same_draws:
  assumes "map rnd1 [pos1..<pos1 + n] = map rnd2 [pos2..<pos2 + n]"
  shows "\<forall>i<n. rnd1 (pos1 + i) = rnd2 (pos2 + i)"
proof (intro allI impI)
  fix i assume i: "i < n"
  have "map rnd1 [pos1..<pos1 + n] ! i = map rnd2 [pos2..<pos2 + n] ! i"
    by (simp only: assms)
  then show "rnd1 (pos1 + i) = rnd2 (pos2 + i)" using i by simp
qed

text \<open>
  Claim C2, as the code has it. Two calls on the same ensemble, whatever the random source
  and its position, agree on whether they return and on the risk statistics, the bin edges,
  the primary counts and the drawdown distribution. The comparison counts are computed from
  the primary counts and 24 draws of \<^verbatim>\<open>Math.random\<close>: two calls that are given the same 24
  draws return the same result.
\<close>

theorem stats_repeat_up_to_jitter:
  "map_option (\<lambda>st. (risk_statistics st, bin_edges (histogram_data st),
                     fpga_counts (histogram_data st), drawdown_distribution st))
     (returned (computeStatsFromPaths rnd1 pos1 ps s))
   = map_option (\<lambda>st. (risk_statistics st, bin_edges (histogram_data st),
                     fpga_counts (histogram_data st), drawdown_distribution st))
     (returned (computeStatsFromPaths rnd2 pos2 ps s))
   \<and> (map rnd1 [pos1..<pos1 + 24] = map rnd2 [pos2..<pos2 + 24]
        \<longrightarrow> fst (computeStatsFromPaths rnd1 pos1 ps s)
            = fst (computeStatsFromPaths rnd2 pos2 ps s))"
proof -
  have "map rnd1 [pos1..<pos1 + 24] = map rnd2 [pos2..<pos2 + 24]
    \<Longrightarrow> fst (jitter rnd1 pos1 (fpgaCounts ps)) = fst (jitter rnd2 pos2 (fpgaCounts ps))"
    using same_draws[of rnd1 pos1 24 rnd2 pos2] by (intro jitter_cong) simp
  then show ?thesis
    by (auto simp: computeStatsFromPaths_def returned_def Let_def split_beta
        split: option.splits)
qed

theorem stats_repeat_up_to_jitter_witness:
  "map half_source [0..<0 + 24] = map half_source [24..<24 + 24]
   \<and> fst (computeStatsFromPaths half_source 0 (map (map Num) crowded_paths) (Some (Num 1)))
     = fst (computeStatsFromPaths half_source 24 (map (map Num) crowded_paths) (Some (Num 1)))"
proof -
  have h: "map half_source [0..<0 + 24] = map half_source [24..<24 + 24]"
    by (simp add: half_source_def[abs_def] map_replicate_const numeral_eq_Suc)
  show ?thesis
    using h stats_repeat_up_to_jitter[where ?rnd1.0 = half_source and ?pos1.0 = 0
        and ?rnd2.0 = half_source and ?pos2.0 = 24 and ps = "map (map Num) crowded_paths"
        and s = "Some (Num 1)"]
    by blast
qed

text \<open>
  Claim C2 as stated fails for the comparison counts. On \<open>crowded_paths\<close> with the source
  \<open>step_source\<close>, the first call ends at position 24 with 28 in the first comparison bin, and
  the second call, from position 24, gives 29.
\<close>

lemma crowded_counts:
  "fpgaCounts (map (map Num) crowded_paths) = 29 # replicate 22 0 @ [1]"
proof -
  have a: "crowded_paths \<noteq> []" by (simp add: crowded_paths_def)
  have b: "[] \<notin> set crowded_paths" by (simp add: crowded_paths_def)
  have n: "length crowded_paths = 30" by (simp add: crowded_paths_def)
  have srt: "sort (map last crowded_paths) = replicate 29 1 @ [25]"
    by (simp add: crowded_paths_def numeral_eq_Suc)
  have lo: "trimLow (map (map Num) crowded_paths) = Num 1"
    unfolding trimLow_Num[OF a b] srt n by (simp add: nth_append)
  have hi: "trimHigh (map (map Num) crowded_paths) = Num 25"
    unfolding trimHigh_Num[OF a b] srt n by (simp add: nth_append)
  have w: "binWidth (map (map Num) crowded_paths) = Num 1"
    unfolding binWidth_def lo hi by (simp add: js_sub_def binCount_def fl_eval)
  have low: "count_price (Num 1) (Num 25) (Num 1) (Some (Num 1)) cs = increment_at cs (Num 0)" for cs
    by (simp add: count_price_def js_gt_def js_sub_def)
  have high: "count_price (Num 1) (Num 25) (Num 1) (Some (Num 25)) cs = increment_at cs (Num 23)" for cs
    by (simp add: count_price_def js_gt_def js_sub_def binCount_def fl_eval)
  have fp: "finalPrices (map (map Num) crowded_paths) = replicate 29 (Some (Num 1)) @ [Some (Num 25)]"
    unfolding finalPrices_Num[OF b] by (simp add: crowded_paths_def)
  have many: "fold (count_price (Num 1) (Num 25) (Num 1)) (replicate k (Some (Num 1))) (c # cs)
              = (c + k) # cs" for k c and cs :: "nat list"
    by (induction k arbitrary: c) (simp_all add: low increment_at_def)
  have "fold (count_price (Num 1) (Num 25) (Num 1)) (replicate 29 (Some (Num 1)))
          (0 # replicate 23 0) = 29 # replicate 23 0"
    by (simp only: many) simp
  then show ?thesis
    unfolding fpgaCounts_def lo hi w fp binCount_def
    by (simp add: high increment_at_def numeral_eq_Suc)
qed

theorem second_call_differs_counterexample:
  "snd (computeStatsFromPaths step_source 0 (map (map Num) crowded_paths) (Some (Num 1))) = 24
   \<and> map_option (cpu_counts \<circ> histogram_data)
       (returned (computeStatsFromPaths step_source 0 (map (map Num) crowded_paths) (Some (Num 1))))
     = Some (28 # replicate 22 0 @ [1])
   \<and> map_option (cpu_counts \<circ> histogram_data)
       (returned (computeStatsFromPaths step_source 24 (map (map Num) crowded_paths) (Some (Num 1))))
     = Some (29 # replicate 22 0 @ [1])
   \<and> map_option histogram_data
       (returned (computeStatsFromPaths step_source 0 (map (map Num) crowded_paths) (Some (Num 1))))
     \<noteq> map_option histogram_data
       (returned (computeStatsFromPaths step_source 24 (map (map Num) crowded_paths) (Some (Num 1))))"
proof -
  have a: "crowded_paths \<noteq> []" by (simp add: crowded_paths_def)
  have b: "[] \<notin> set crowded_paths" by (simp add: crowded_paths_def)
  have j0: "fst (jitter step_source 0 (29 # replicate 22 0 @ [1])) = 28 # replicate 22 0 @ [1]"
    by (simp add: step_source_def Math_round_def numeral_eq_Suc)
  have j24: "fst (jitter step_source 24 (29 # replicate 22 0 @ [1])) = 29 # replicate 22 0 @ [1]"
    by (simp add: step_source_def Math_round_def numeral_eq_Suc)
  show ?thesis
    unfolding computeStats_Num_fields[OF a b] crowded_counts j0 j24
    by (simp add: returned_def)
qed

section \<open>The rejection loop and the path generator\<close>

lemma reject_zero_nonzero: "u \<noteq> 0 \<Longrightarrow> reject_zero rnd u pos = Some (u, pos)"
  by (subst reject_zero.simps) simp

lemma reject_zero_zero: "reject_zero rnd 0 pos = reject_zero rnd (rnd pos) (pos + 1)"
  by (subst reject_zero.simps) simp

lemma reject_zero_first_nonzero:
  assumes "pos + k = m" and "\<forall>j. pos \<le> j \<and> j < m \<longrightarrow> rnd j = 0" and "rnd m \<noteq> 0"
  shows "reject_zero rnd 0 pos = Some (rnd m, Suc m)"
  using assms
proof (induction k arbitrary: pos)
  case 0
  then show ?case by (simp add: reject_zero_zero reject_zero_nonzero)
next
  case (Suc k)
  have z: "rnd pos = 0" using Suc.prems by simp
  have "reject_zero rnd 0 (pos + 1) = Some (rnd m, Suc m)"
    using Suc.prems by (intro Suc.IH) simp_all
  then show ?case by (subst reject_zero_zero) (simp add: z)
qed

lemma first_nonzero_exists:
  assumes "never_stuck_at_zero rnd"
  shows "\<exists>m\<ge>pos. rnd m \<noteq> 0 \<and> (\<forall>j. pos \<le> j \<and> j < m \<longrightarrow> rnd j = 0)"
proof -
  let ?P = "\<lambda>m. pos \<le> m \<and> rnd m \<noteq> 0"
  have ex: "\<exists>m. ?P m" using assms unfolding never_stuck_at_zero_def by blast
  define m where "m = (LEAST m. ?P m)"
  have Pm: "?P m" unfolding m_def using ex by (rule LeastI_ex)
  have "\<forall>j. pos \<le> j \<and> j < m \<longrightarrow> rnd j = 0"
  proof (intro allI impI)
    fix j assume j: "pos \<le> j \<and> j < m"
    then have "\<not> ?P j" unfolding m_def using not_less_Least by blast
    with j show "rnd j = 0" by simp
  qed
  with Pm show ?thesis by blast
qed

lemma filter_zeros_then_nonzero:
  assumes "pos \<le> m" and "\<forall>j. pos \<le> j \<and> j < m \<longrightarrow> rnd j = 0" and "rnd m \<noteq> 0"
  shows "filter (\<lambda>u. u \<noteq> 0) (map rnd [pos..<Suc m]) = [rnd m]"
proof -
  have "filter (\<lambda>u. u \<noteq> 0) (map rnd [pos..<m]) = []"
    using assms(2) by (auto simp: filter_empty_conv)
  then show ?thesis using assms(1,3) by simp
qed

lemma reject_zero_total:
  assumes "never_stuck_at_zero rnd"
  shows "\<exists>m\<ge>pos. rnd m \<noteq> 0 \<and> reject_zero rnd 0 pos = Some (rnd m, Suc m)
          \<and> filter (\<lambda>u. u \<noteq> 0) (map rnd [pos..<Suc m]) = [rnd m]"
proof -
  obtain m where m: "pos \<le> m" "rnd m \<noteq> 0" "\<forall>j. pos \<le> j \<and> j < m \<longrightarrow> rnd j = 0"
    using first_nonzero_exists[OF assms] by blast
  have "pos + (m - pos) = m" using m(1) by simp
  then have "reject_zero rnd 0 pos = Some (rnd m, Suc m)"
    using m(3) m(2) by (rule reject_zero_first_nonzero)
  then show ?thesis using m filter_zeros_then_nonzero[OF m(1) m(3) m(2)] by blast
qed

lemma gaussRandom_total:
  assumes "never_stuck_at_zero rnd"
  shows "\<exists>a b. pos \<le> a \<and> a < b \<and> rnd a \<noteq> 0 \<and> rnd b \<noteq> 0
          \<and> gaussRandom rnd pos = Some (box_muller (rnd a) (rnd b), Suc b)
          \<and> filter (\<lambda>u. u \<noteq> 0) (map rnd [pos..<Suc b]) = [rnd a, rnd b]"
proof -
  obtain a where a: "pos \<le> a" "rnd a \<noteq> 0" "reject_zero rnd 0 pos = Some (rnd a, Suc a)"
      "filter (\<lambda>u. u \<noteq> 0) (map rnd [pos..<Suc a]) = [rnd a]"
    using reject_zero_total[OF assms, of pos] by blast
  obtain b where b: "Suc a \<le> b" "rnd b \<noteq> 0" "reject_zero rnd 0 (Suc a) = Some (rnd b, Suc b)"
      "filter (\<lambda>u. u \<noteq> 0) (map rnd [Suc a..<Suc b]) = [rnd b]"
    using reject_zero_total[OF assms, of "Suc a"] by blast
  have split: "[pos..<Suc b] = [pos..<Suc a] @ [Suc a..<Suc b]"
    using a(1) b(1) by (metis le_Suc_eq le_SucI upt_add_eq_append le_Suc_ex)
  have "gaussRandom rnd pos = Some (box_muller (rnd a) (rnd b), Suc b)"
    by (simp add: gaussRandom_def a(3) b(3))
  moreover have "filter (\<lambda>u. u \<noteq> 0) (map rnd [pos..<Suc b]) = [rnd a, rnd b]"
    unfolding split by (simp only: map_append filter_append a(4) b(4)) simp
  ultimately show ?thesis using a(1,2) b(1,2) by (intro exI[of _ a] exI[of _ b]) simp
qed




text \<open>
  A price stays positive as long as the exact product with the factor is at least
  \<open>2^(-1074)\<close>, and is \<open>0\<close> once that product is at most \<open>2^(-1075)\<close>; from a price \<open>0\<close> on,
  every product with a finite factor is \<open>0\<close>.
\<close>

lemma price_stays_positive:
  assumes "pow2 (- 1074) \<le> a * e"
  shows "js_gt (js_mul (Num a) (Num e)) (Num 0)"
  using fl_pos[OF assms] by (auto simp: js_gt_def)

lemma price_underflows:
  assumes "0 \<le> a * e" and "a * e \<le> pow2 (- 1075)"
  shows "js_mul (Num a) (Num e) = Num 0"
  using fl_underflow[OF assms] by simp

lemma price_stays_zero: "js_mul (Num 0) (Num e) = Num 0"
  by simp










section \<open>Every attempt of the strategy ends\<close>

lemma path_steps_total:
  assumes "never_stuck_at_zero rnd"
  shows "\<exists>xs pos'. path_steps rnd dr vl n x pos = Some (xs, pos') \<and> length xs = n"
proof (induction n arbitrary: x pos)
  case 0
  then show ?case by simp
next
  case (Suc n)
  obtain z pos1 where g: "gaussRandom rnd pos = Some (z, pos1)"
    using gaussRandom_total[OF assms, of pos] by blast
  obtain xs pos' where IH:
      "path_steps rnd dr vl n (js_mul x (Math_exp (js_add dr (js_mul vl z)))) pos1 = Some (xs, pos')"
      "length xs = n"
    using Suc.IH by blast
  show ?case by (simp add: g IH Let_def)
qed

lemma generatePath_total:
  assumes "never_stuck_at_zero rnd"
  shows "\<exists>p pos'. generatePath rnd pos S0 days m sg = Some (p, pos') \<and> length p = days"
proof (cases days)
  case 0
  then show ?thesis by (simp add: generatePath_def)
next
  case (Suc d)
  obtain xs pos' where
      "path_steps rnd (drift_per_step m sg) (vol_per_step sg) d (ToNumber S0) pos = Some (xs, pos')"
      "length xs = d"
    using path_steps_total[OF assms] by blast
  then show ?thesis by (simp add: generatePath_def Suc)
qed

lemma generate_paths_total:
  assumes "never_stuck_at_zero rnd"
  shows "\<exists>ps pos'. generate_paths rnd cfg days n pos = Some (ps, pos')
          \<and> length ps = n \<and> (\<forall>p \<in> set ps. length p = days)"
proof (induction n arbitrary: pos)
  case 0
  then show ?case by simp
next
  case (Suc n)
  obtain p pos1 where p:
      "generatePath rnd pos (get_price cfg) days (get_mu cfg) (get_sigma cfg) = Some (p, pos1)"
      "length p = days"
    using generatePath_total[OF assms] by blast
  obtain ps pos' where IH: "generate_paths rnd cfg days n pos1 = Some (ps, pos')"
      "length ps = n" "\<forall>p \<in> set ps. length p = days"
    using Suc.IH by blast
  show ?case by (simp add: p IH)
qed

lemma computeStats_returns:
  assumes "ps \<noteq> []" and "[] \<notin> set ps"
  shows "\<exists>st. computeStatsFromPaths rnd pos ps s = (Inr st, pos + 24)"
proof -
  have "length ps div 20 < length (sorted_prices ps)"
    using assms(1) by (simp add: sorted_prices_defined(1)[OF assms(2)] div_less_dividend)
  have k: "length ps div 20 < length (sorted_prices ps)" by fact
  then have "sorted_prices ps ! (length ps div 20) \<in> set (sorted_prices ps)" by simp
  then have "sorted_prices ps ! (length ps div 20) \<noteq> None"
    using sorted_prices_defined(2)[OF assms(2)] by metis
  then obtain v where "sorted_prices ps ! (length ps div 20) = Some v" by blast
  then have v: "var95 ps = Some v"
    unfolding var95_def percentile_005 js_at_def using k
    by (simp add: sorted_prices_defined(1)[OF assms(2)])
  then have "\<exists>c. cvar95 ps = Some c" by (simp add: cvar95_def)
  then obtain c where c: "cvar95 ps = Some c" by blast
  have "snd (jitter rnd pos (fpgaCounts ps)) = pos + 24" by (simp add: jitter_pos)
  then show ?thesis
    using assms(1) v c by (simp add: computeStatsFromPaths_def Let_def split_beta)
qed

lemma Math_round_of_int: "Math_round (real_of_int k) = k"
  by (simp add: Math_round_def)

lemma generateMockData_total:
  assumes "never_stuck_at_zero rnd"
  shows "\<exists>r p. generateMockData rnd pos tk = Some (Inr r, p)
          \<and> ticker r = tk
          \<and> name r = get_name (getTickerConfig tk)
          \<and> start_price r = get_price (getTickerConfig tk)
          \<and> n_steps r = 252"
proof -
  obtain ps pos1 where g:
      "generate_paths rnd (getTickerConfig tk) 252 10000 pos = Some (ps, pos1)"
      "length ps = 10000" "\<forall>p \<in> set ps. length p = 252"
    using generate_paths_total[OF assms] by blast
  have ne: "ps \<noteq> []" using g(2) by auto
  have nonempty: "[] \<notin> set ps" using g(3) by auto
  obtain st where st:
      "computeStatsFromPaths rnd pos1 ps (get_price (getTickerConfig tk)) = (Inr st, pos1 + 24)"
    using computeStats_returns[OF ne nonempty] by blast
  show ?thesis
    by (simp add: generateMockData_def Let_def g(1) st stats.defs)
qed

text \<open>
  The fallback of the tail mean is taken inside the program. For a ticker that names an
  inherited member, such as \<open>toString\<close>, the configuration has no \<open>price\<close>, \<open>mu\<close> or \<open>sigma\<close>;
  every generated price is \<open>NaN\<close>, and on such an ensemble the tail is empty.
\<close>

lemma js_lt_NaN [simp]: "\<not> js_lt x NaN"
  by (cases x) simp_all

lemma js_insort_NaN: "js_insort NaN xs = NaN # xs"
  by (cases xs) (simp_all add: js_gt_def)

lemma sorted_prices_all_NaN:
  assumes "0 < days"
  shows "sorted_prices (replicate n (replicate days NaN)) = replicate n (Some NaN)"
proof -
  have fp: "finalPrices (replicate n (replicate days NaN)) = replicate n (Some NaN)"
    using assms by (simp add: finalPrices_def final_price_def js_nth_def)
  have srt: "foldr js_insort (replicate k NaN) [] = replicate k NaN" for k
    by (induction k) (simp_all add: js_insort_NaN)
  have m: "map the (filter (\<lambda>v. v \<noteq> None) (replicate n (Some NaN))) = replicate n NaN"
    by simp
  have e: "filter (\<lambda>v. v = None) (replicate n (Some NaN)) = []"
    by simp
  show ?thesis
    unfolding sorted_prices_def fp js_sort_def m e srt by simp
qed

lemma all_NaN_takes_fallback:
  assumes "0 < n" and "0 < days"
  shows "var95 (replicate n (replicate days NaN)) = Some NaN"
    and "cvarValues (replicate n (replicate days NaN)) = []"
    and "cvar95 (replicate n (replicate days NaN)) = var95 (replicate n (replicate days NaN))"
proof -
  have "n div 20 < n" using assms(1) by (simp add: div_less_dividend)
  then show v: "var95 (replicate n (replicate days NaN)) = Some NaN"
    unfolding var95_def sorted_prices_all_NaN[OF assms(2)] percentile_005
    by (simp add: js_at_def)
  then show t: "cvarValues (replicate n (replicate days NaN)) = []"
    by (simp add: cvarValues_empty_iff)
  show "cvar95 (replicate n (replicate days NaN)) = var95 (replicate n (replicate days NaN))"
    by (simp add: cvar95_def t)
qed

lemma path_steps_NaN:
  assumes "never_stuck_at_zero rnd"
  shows "\<exists>pos'. path_steps rnd dr vl n NaN pos = Some (replicate n NaN, pos')"
proof (induction n arbitrary: pos)
  case 0
  then show ?case by simp
next
  case (Suc n)
  obtain z pos1 where g: "gaussRandom rnd pos = Some (z, pos1)"
    using gaussRandom_total[OF assms, of pos] by blast
  obtain pos' where "path_steps rnd dr vl n NaN pos1 = Some (replicate n NaN, pos')"
    using Suc.IH by blast
  then show ?case by (simp add: g Let_def)
qed

lemma generate_paths_NaN:
  assumes "never_stuck_at_zero rnd" and "get_price cfg = None"
  shows "\<exists>pos'. generate_paths rnd cfg days n pos = Some (replicate n (replicate days NaN), pos')"
proof (induction n arbitrary: pos)
  case 0
  then show ?case by simp
next
  case (Suc n)
  have "\<exists>pos1. generatePath rnd pos None days (get_mu cfg) (get_sigma cfg)
          = Some (replicate days NaN, pos1)"
  proof (cases days)
    case 0
    then show ?thesis by (simp add: generatePath_def)
  next
    case (Suc d)
    obtain pos1 where
      "path_steps rnd (drift_per_step (get_mu cfg) (get_sigma cfg)) (vol_per_step (get_sigma cfg))
         d NaN pos = Some (replicate d NaN, pos1)"
      using path_steps_NaN[OF assms(1)] by blast
    then show ?thesis by (simp add: generatePath_def Suc)
  qed
  then obtain pos1 where p:
    "generatePath rnd pos (get_price cfg) days (get_mu cfg) (get_sigma cfg)
       = Some (replicate days NaN, pos1)"
    unfolding assms(2) by blast
  obtain pos' where
    "generate_paths rnd cfg days n pos1 = Some (replicate n (replicate days NaN), pos')"
    using Suc.IH by blast
  then show ?case by (simp add: p)
qed

lemma inherited_member_takes_fallback:
  "\<exists>ps p. generate_paths half_source (getTickerConfig ''toString'') 252 10000 1 = Some (ps, p)
         \<and> var95 ps = Some NaN \<and> cvarValues ps = [] \<and> cvar95 ps = var95 ps"
proof -
  have n: "never_stuck_at_zero half_source"
    by (auto simp: never_stuck_at_zero_def half_source_def)
  have t: "getTickerConfig ''toString'' = BuiltinFunction ''toString''"
    by (simp add: getTickerConfig_def CONFIGS_def CONFIGS_own_def Object_prototype_def)
  obtain p where "generate_paths half_source (getTickerConfig ''toString'') 252 10000 1
                  = Some (replicate 10000 (replicate 252 NaN), p)"
    using generate_paths_NaN[OF n, where cfg = "getTickerConfig ''toString''" and days = 252
        and n = 10000 and pos = 1]
    unfolding t by auto
  then show ?thesis
    using all_NaN_takes_fallback[of 10000 252] by simp
qed

lemma fetchSimulationResults_resolves:
  assumes "never_stuck_at_zero (random env)"
  shows "\<exists>r p. fetchSimulationResults env pos arg = Some (Inr r, p)"
proof -
  define tk where "tk = (case arg of None \<Rightarrow> ''SPY'' | Some t \<Rightarrow> t)"
  show ?thesis
  proof (cases "fetchFull env tk")
    case (Inr result)
    then show ?thesis by (simp add: fetchSimulationResults_def tk_def)
  next
    case (Inl e1)
    obtain out pos1 where raw: "fetchRawPaths env pos tk = (out, pos1)"
      by (cases "fetchRawPaths env pos tk")
    show ?thesis
    proof (cases out)
      case (Inr result)
      then show ?thesis using Inl raw by (simp add: fetchSimulationResults_def tk_def)
    next
      case (Inl e2)
      obtain r p where "generateMockData (random env) (pos1 + 1) tk = Some (Inr r, p)"
        using generateMockData_total[OF assms] by blast
      then show ?thesis
        using \<open>fetchFull env tk = Inl e1\<close> raw Inl
        by (simp add: fetchSimulationResults_def tk_def Let_def)
    qed
  qed
qed

lemma unknown_ticker_default:
  assumes "tk \<notin> set (map fst CONFIGS_own)" and "Object_prototype tk = None"
  shows "getTickerConfig tk = ConfigObject SPY"
proof -
  have "map_of CONFIGS_own tk = None" using assms(1) by (simp add: map_of_eq_None_iff)
  then show ?thesis by (simp add: getTickerConfig_def CONFIGS_def assms(2))
qed

text \<open>
  Claim C4. When the attempt at the full endpoint fails, for whatever reason, and the raw
  endpoint answers with a success status and a non-empty array of non-empty paths of finite
  numbers, the strategy returns a result whose risk statistics, histogram and drawdown
  distribution are the ones that \<^verbatim>\<open>computeStatsFromPaths\<close> computes from all the returned paths
  with the first price of the first path as start price; its fast timing is the measured
  latency, rounded and raised to at least 1, and its slow timing is 15 times the fast one.
  The paths it carries are the first 35.
\<close>

theorem raw_paths_fallback:
  assumes "fetchFull env tk = Inl e"
    and "raw_endpoint env = Responded st (Some \<lparr> paths = Some (map (map Num) rs) \<rparr>)"
    and "res_ok st"
    and "rs \<noteq> []" and "[] \<notin> set rs"
  shows "\<exists>computed r.
           computeStatsFromPaths (random env) pos (map (map Num) rs) (Some (Num (hd (hd rs))))
             = (Inr computed, pos + 24)
         \<and> fetchSimulationResults env pos (Some tk) = Some (Inr r, pos + 24)
         \<and> risk_statistics r = risk_statistics computed
         \<and> histogram_data r = histogram_data computed
         \<and> drawdown_distribution r = drawdown_distribution computed
         \<and> fpga_time_ms (performance r) = real_of_int (max 1 (Math_round (apiTime env)))
         \<and> cpu_time_ms (performance r) = 15 * fpga_time_ms (performance r)
         \<and> ticker r = tk
         \<and> start_price r = Some (Num (hd (hd rs)))
         \<and> price_paths r = take 35 (map (map Num) rs)"
proof -
  obtain computed where c:
      "computeStatsFromPaths (random env) pos (map (map Num) rs) (Some (Num (hd (hd rs))))
         = (Inr computed, pos + 24)"
    using computeStats_Num_fields[OF assms(4,5)] by blast
  have hd: "hd rs \<noteq> []" using assms(4,5) by (cases rs) auto
  then have sp: "js_nth (hd (map (map Num) rs)) 0 = Some (Num (hd (hd rs)))"
    using assms(4) by (cases rs; cases "hd rs") (simp_all add: js_nth_def)
  have len: "length (hd (map (map Num) rs)) \<noteq> 0" using hd assms(4) by (cases rs) simp_all
  have cpu: "real_of_int (Math_round (real_of_int (max 1 (Math_round (apiTime env))) * 15))
             = 15 * real_of_int (max 1 (Math_round (apiTime env)))"
    using Math_round_of_int[of "max 1 (Math_round (apiTime env)) * 15"] by simp
  have "fetchRawPaths env pos tk =
        (Inr (stats.extend computed \<lparr>
           ticker = tk, name = Some tk, start_price = Some (Num (hd (hd rs))),
           n_steps = length (hd (map (map Num) rs)),
           performance = \<lparr>
             fpga_time_ms = real_of_int (max 1 (Math_round (apiTime env))),
             cpu_time_ms = 15 * real_of_int (max 1 (Math_round (apiTime env))),
             speed_improvement_x =
               toFixed_real 1 (15 * real_of_int (max 1 (Math_round (apiTime env)))
                               / real_of_int (max 1 (Math_round (apiTime env)))) \<rparr>,
           price_paths = take 35 (map (map Num) rs) \<rparr>), pos + 24)"
    using assms(3,4) len
    by (simp add: fetchRawPaths_def assms(2) sp c Let_def cpu VIZ_SAMPLE_COUNT_def
        del: hd_map)
  then have "fetchSimulationResults env pos (Some tk) =
        Some (Inr (stats.extend computed \<lparr>
           ticker = tk, name = Some tk, start_price = Some (Num (hd (hd rs))),
           n_steps = length (hd (map (map Num) rs)),
           performance = \<lparr>
             fpga_time_ms = real_of_int (max 1 (Math_round (apiTime env))),
             cpu_time_ms = 15 * real_of_int (max 1 (Math_round (apiTime env))),
             speed_improvement_x =
               toFixed_real 1 (15 * real_of_int (max 1 (Math_round (apiTime env)))
                               / real_of_int (max 1 (Math_round (apiTime env)))) \<rparr>,
           price_paths = take 35 (map (map Num) rs) \<rparr>), pos + 24)"
    by (simp add: fetchSimulationResults_def assms(1))
  then show ?thesis using c by (simp add: stats.defs)
qed

theorem raw_paths_fallback_witness:
  "fetchFull raw_only ''SPY'' = Inl (HttpStatus 404)
   \<and> raw_endpoint raw_only = Responded 200 (Some \<lparr> paths = Some (map (map Num) scenario_paths) \<rparr>)
   \<and> res_ok 200 \<and> scenario_paths \<noteq> [] \<and> [] \<notin> set scenario_paths
   \<and> (\<exists>computed r.
         computeStatsFromPaths (random raw_only) 0 (map (map Num) scenario_paths)
             (Some (Num (hd (hd scenario_paths))))
           = (Inr computed, 0 + 24)
       \<and> fetchSimulationResults raw_only 0 (Some ''SPY'') = Some (Inr r, 0 + 24)
       \<and> risk_statistics r = risk_statistics computed
       \<and> histogram_data r = histogram_data computed
       \<and> drawdown_distribution r = drawdown_distribution computed
       \<and> fpga_time_ms (performance r) = 7
       \<and> cpu_time_ms (performance r) = 105)"
proof -
  have a: "fetchFull raw_only ''SPY'' = Inl (HttpStatus 404)"
    by (simp add: fetchFull_def raw_only_def res_ok_def)
  have b: "raw_endpoint raw_only
           = Responded 200 (Some \<lparr> paths = Some (map (map Num) scenario_paths) \<rparr>)"
    by (simp add: raw_only_def)
  have c: "res_ok 200" by (simp add: res_ok_def)
  have d: "scenario_paths \<noteq> []" by (simp add: scenario_paths_def)
  have e: "[] \<notin> set scenario_paths" by (simp add: scenario_paths_def)
  have t: "real_of_int (max 1 (Math_round (apiTime raw_only))) = 7"
    by (simp add: raw_only_def Math_round_def)
  show ?thesis
    using a b c d e raw_paths_fallback[OF a b c d e, where pos = 0] unfolding t
    by auto
qed

text \<open>
  Claim C1 at the ticker \<open>toString\<close> with both endpoints down. The ticker is no key of the
  configuration table, yet \<^verbatim>\<open>CONFIGS[ticker]\<close> finds the function \<^verbatim>\<open>Object.prototype.toString\<close>,
  which is truthy, so the default is not taken: the strategy resolves with the name
  \<open>toString\<close> and an undefined start price. An unknown ticker that names no member of
  \<^verbatim>\<open>Object.prototype\<close>, such as \<open>XYZ\<close>, resolves to the configuration of SPY. (That the
  strategy resolves for every ticker and every outcome of the two fetches, as long as the
  random source is never stuck at zero, is \<open>fetchSimulationResults_resolves\<close>; that every
  other unknown ticker gets the default is \<open>unknown_ticker_default\<close>.)
\<close>

theorem inherited_member_is_no_default:
  "''toString'' \<notin> set (map fst CONFIGS_own)
   \<and> getTickerConfig ''toString'' = BuiltinFunction ''toString''
   \<and> (\<exists>r p. fetchSimulationResults offline 0 (Some ''toString'') = Some (Inr r, p)
         \<and> name r = Some ''toString'' \<and> start_price r = None)
   \<and> getTickerConfig ''XYZ'' = ConfigObject SPY
   \<and> (\<exists>r p. fetchSimulationResults offline 0 (Some ''XYZ'') = Some (Inr r, p)
         \<and> name r = Some ''S&P 500 ETF'' \<and> start_price r = Some (Num 190.17))"
proof -
  have n: "never_stuck_at_zero half_source"
    by (auto simp: never_stuck_at_zero_def half_source_def)
  have off: "fetchSimulationResults offline 0 (Some tk) = generateMockData half_source 1 tk" for tk
    by (simp add: fetchSimulationResults_def fetchFull_def fetchRawPaths_def offline_def)
  have t: "getTickerConfig ''toString'' = BuiltinFunction ''toString''"
    by (simp add: getTickerConfig_def CONFIGS_def CONFIGS_own_def Object_prototype_def)
  have x: "getTickerConfig ''XYZ'' = ConfigObject SPY"
    by (simp add: getTickerConfig_def CONFIGS_def CONFIGS_own_def Object_prototype_def)
  have own: "''toString'' \<notin> set (map fst CONFIGS_own)" by (simp add: CONFIGS_own_def)
  obtain r p where r: "generateMockData half_source 1 ''toString'' = Some (Inr r, p)"
      "name r = get_name (getTickerConfig ''toString'')"
      "start_price r = get_price (getTickerConfig ''toString'')"
    using generateMockData_total[OF n, of 1 "''toString''"] by blast
  obtain r' p' where r': "generateMockData half_source 1 ''XYZ'' = Some (Inr r', p')"
      "name r' = get_name (getTickerConfig ''XYZ'')"
      "start_price r' = get_price (getTickerConfig ''XYZ'')"
    using generateMockData_total[OF n, of 1 "''XYZ''"] by blast
  have "\<exists>r p. fetchSimulationResults offline 0 (Some ''toString'') = Some (Inr r, p)
         \<and> name r = Some ''toString'' \<and> start_price r = None"
    using r unfolding off t by auto
  moreover have "\<exists>r p. fetchSimulationResults offline 0 (Some ''XYZ'') = Some (Inr r, p)
         \<and> name r = Some ''S&P 500 ETF'' \<and> start_price r = Some (Num 190.17)"
    using r' unfolding off x by (auto simp: SPY_def)
  ultimately show ?thesis using own t x by blast
qed

end
